theory Spec2Isabelle
  imports Complex_Main "HOL-Library.Word" "HOL-Library.AList" "HOL-Library.Code_Target_Numeral"
begin

unbundle bit_operations_syntax

section \<open>Values the program handles\<close>

text \<open>
  What \<^verbatim>\<open>resp.json()\<close> and \<^verbatim>\<open>json.load\<close> hand to the program: a JSON value as
  Python holds it. An object is a \<^verbatim>\<open>dict\<close> with string keys, kept as an association
  list in insertion order whose keys are distinct. JSON numbers are the integers
  (Python's unbounded \<^verbatim>\<open>int\<close>); floating-point numbers are left out.
\<close>

datatype json =
    JNull
  | JBool bool
  | JInt int
  | JStr string
  | JArr "json list"
  | JObj "(string \<times> json) list"

text \<open>Python's truth value of such a value (\<^verbatim>\<open>if x:\<close>, \<^verbatim>\<open>x or y\<close>, \<^verbatim>\<open>not x\<close>).\<close>

fun truthy :: "json \<Rightarrow> bool" where
  "truthy JNull = False"
| "truthy (JBool b) = b"
| "truthy (JInt n) = (n \<noteq> 0)"
| "truthy (JStr s) = (s \<noteq> [])"
| "truthy (JArr xs) = (xs \<noteq> [])"
| "truthy (JObj kv) = (kv \<noteq> [])"

text \<open>\<^verbatim>\<open>d.get(k)\<close> on a dict: the value, or \<^verbatim>\<open>None\<close> (here \<open>JNull\<close>) when the key is absent.\<close>

definition dict_get :: "(string \<times> json) list \<Rightarrow> string \<Rightarrow> json" where
  "dict_get kv k = (case map_of kv k of None \<Rightarrow> JNull | Some v \<Rightarrow> v)"

text \<open>An optional string argument (\<^verbatim>\<open>Optional[str]\<close>) used as a condition.\<close>

fun given :: "string option \<Rightarrow> bool" where
  "given None = False"
| "given (Some s) = (s \<noteq> [])"

text \<open>
  Every exception the modelled functions let escape, one constructor for each raise site
  or library failure. The three \<^verbatim>\<open>RuntimeError\<close>s and the \<^verbatim>\<open>TimeoutError\<close> of the
  source carry the values their messages are formatted from.
\<close>

datatype error =
    RequestException
  | HTTPError int
  | JSONDecodeError
  | AttributeError
  | KeyError string
  | TypeError
  | ValueError
  | FileNotFoundError string
  | PollTimeout
  | DeviceFlowFailed json json
  | UnexpectedTokenResponse int json
  | RefreshFailed int "json + string"

section \<open>The world outside: HTTP, clock, files\<close>

record http_response =
  status_code :: int
  json_body :: "json option"
  body_text :: string

text \<open>
  \<open>json_body\<close> is what \<^verbatim>\<open>resp.json()\<close> returns, \<open>None\<close> when it raises because the
  body is not JSON; \<open>body_text\<close> is \<^verbatim>\<open>resp.text\<close>.
\<close>

datatype post_result = PostRaised | PostReturned http_response

text \<open>
  One scripted answer of the network: what \<^verbatim>\<open>requests.post\<close> does, and the seconds
  that pass on the clock meanwhile (every call passes \<^verbatim>\<open>timeout=30\<close>, so a call may
  take that long). Time is a rational number of seconds, an idealisation of the float
  that \<^verbatim>\<open>time.time()\<close> returns. The clock moves while a request is under way and
  while the program sleeps, by exactly the seconds it asked to sleep; the program's other
  steps take no time, but for the stretch between the two first readings of the clock in
  \<^verbatim>\<open>poll_token_endpoint\<close>, which is a parameter there.
\<close>

record step =
  outcome :: post_result
  took :: rat

record request =
  url :: string
  headers :: "(string \<times> string) list"
  form :: "(string \<times> json) list"

datatype event = Posted request rat | Slept int

type_synonym mode = "32 word"

record stored_file =
  content :: string
  perms :: mode

text \<open>
  The state of the world: the clock, what the program has done so far (latest event
  first), the files by path and the process's umask.
\<close>

record world =
  now :: rat
  events :: "event list"
  files :: "string \<rightharpoonup> stored_file"
  umask :: mode

definition time_sleep :: "int \<Rightarrow> world \<Rightarrow> world" where
  "time_sleep secs w = w\<lparr>now := now w + of_int secs, events := Slept secs # events w\<rparr>"

definition requests_post :: "request \<Rightarrow> step \<Rightarrow> world \<Rightarrow> world" where
  "requests_post rq s w = w\<lparr>now := now w + took s, events := Posted rq (took s) # events w\<rparr>"

definition elapse :: "rat \<Rightarrow> world \<Rightarrow> world" where
  "elapse d w = w\<lparr>now := now w + d\<rparr>"

definition resp_json :: "http_response \<Rightarrow> error + json" where
  "resp_json r = (case json_body r of None \<Rightarrow> Inl JSONDecodeError | Some j \<Rightarrow> Inr j)"

text \<open>\<^verbatim>\<open>resp.raise_for_status()\<close> raises for the 4xx and 5xx codes only.\<close>

definition raises_for_status :: "http_response \<Rightarrow> bool" where
  "raises_for_status r = (400 \<le> status_code r \<and> status_code r < 600)"

section \<open>Endpoints and requests\<close>

definition REALM_BASE :: string where
  "REALM_BASE = ''https://aai.egi.eu/auth/realms/egi/protocol/openid-connect''"

definition DEVICE_ENDPOINT :: string where
  "DEVICE_ENDPOINT = REALM_BASE @ ''/auth/device''"

definition TOKEN_ENDPOINT :: string where
  "TOKEN_ENDPOINT = REALM_BASE @ ''/token''"

definition form_headers :: "(string \<times> string) list" where
  "form_headers = [(''Content-Type'', ''application/x-www-form-urlencoded'')]"

definition with_audience ::
  "string option \<Rightarrow> (string \<times> json) list \<Rightarrow> (string \<times> json) list" where
  "with_audience audience data =
     (if given audience then data @ [(''audience'', JStr (the audience))] else data)"

definition token_request :: "json \<Rightarrow> string \<Rightarrow> string option \<Rightarrow> request" where
  "token_request device_code client_id audience =
     \<lparr>url = TOKEN_ENDPOINT, headers = form_headers,
      form = with_audience audience
        [(''grant_type'', JStr ''urn:ietf:params:oauth:grant-type:device_code''),
         (''device_code'', device_code),
         (''client_id'', JStr client_id)]\<rparr>"

section \<open>poll_token_endpoint\<close>

text \<open>
  The \<^verbatim>\<open>while True\<close> loop of \<^verbatim>\<open>poll_token_endpoint\<close>, one equation per iteration. The
  network's answers are a script, one \<open>step\<close> for each POST the loop may issue; when the
  loop wants to POST and the script is used up the model has no answer (\<open>None\<close>). The
  result is otherwise \<open>Some\<close> of the returned token JSON or of the exception raised.
  \<open>rq\<close> is the request, which the source builds anew, and the same, in every iteration.
\<close>

fun poll_loop ::
  "request \<Rightarrow> int \<Rightarrow> rat \<Rightarrow> int \<Rightarrow> step list \<Rightarrow> world \<Rightarrow> (error + json) option \<times> world" where
  "poll_loop rq timeout_seconds began current_interval [] w =
     (if now w - began > of_int timeout_seconds then (Some (Inl PollTimeout), w)
      else (None, w))"
| "poll_loop rq timeout_seconds began current_interval (s # ss) w =
     (if now w - began > of_int timeout_seconds then (Some (Inl PollTimeout), w)
      else
        let w1 = requests_post rq s w in
        case outcome s of
          PostRaised \<Rightarrow> (Some (Inl RequestException), w1)
        | PostReturned resp \<Rightarrow>
            if status_code resp = 200 then (Some (resp_json resp), w1)
            else
              (case json_body resp of
                 None \<Rightarrow>
                   (Some (Inl (if raises_for_status resp then HTTPError (status_code resp)
                               else JSONDecodeError)), w1)
               | Some (JObj kv) \<Rightarrow>
                   (let err = dict_get kv ''error'' in
                    if err = JStr ''authorization_pending'' \<or> err = JStr ''slow_down'' then
                      (let current_interval' =
                         (if err = JStr ''slow_down'' then min (current_interval + 5) 30
                          else current_interval)
                       in poll_loop rq timeout_seconds began current_interval' ss
                            (time_sleep current_interval' w1))
                    else if err = JStr ''access_denied'' \<or> err = JStr ''expired_token''
                            \<or> err = JStr ''invalid_grant'' then
                      (Some (Inl (DeviceFlowFailed err (JObj kv))), w1)
                    else
                      (Some (Inl (UnexpectedTokenResponse (status_code resp) (JObj kv))), w1))
               | Some _ \<Rightarrow> (Some (Inl AttributeError), w1)))"

text \<open>
  \<^verbatim>\<open>interval or 5\<close> is 5 when \<open>interval\<close> is 0. \<open>lag\<close> is the time that passes between
  the reading \<^verbatim>\<open>began = time.time()\<close> and the first reading inside the loop. The timeout
  is always given here; the source has the default 300 for it.
\<close>

definition poll_token_endpoint ::
  "json \<Rightarrow> string \<Rightarrow> string option \<Rightarrow> int \<Rightarrow> int \<Rightarrow> rat \<Rightarrow> step list \<Rightarrow> world
     \<Rightarrow> (error + json) option \<times> world" where
  "poll_token_endpoint device_code client_id audience interval timeout_seconds lag ss w =
     (let began = now w;
          current_interval = max 5 (if interval = 0 then 5 else interval)
      in poll_loop (token_request device_code client_id audience) timeout_seconds began
           current_interval ss (elapse lag w))"

section \<open>start_device_flow and run_device_flow\<close>

definition device_request :: "string \<Rightarrow> string \<Rightarrow> string option \<Rightarrow> request" where
  "device_request client_id scope audience =
     \<lparr>url = DEVICE_ENDPOINT, headers = form_headers,
      form = with_audience audience
        [(''client_id'', JStr client_id), (''scope'', JStr scope)]\<rparr>"

definition start_device_flow ::
  "string \<Rightarrow> string \<Rightarrow> string option \<Rightarrow> step \<Rightarrow> world \<Rightarrow> (error + json) \<times> world" where
  "start_device_flow client_id scope audience s w =
     (let w1 = requests_post (device_request client_id scope audience) s w in
      case outcome s of
        PostRaised \<Rightarrow> (Inl RequestException, w1)
      | PostReturned resp \<Rightarrow>
          if raises_for_status resp then (Inl (HTTPError (status_code resp)), w1)
          else (resp_json resp, w1))"

text \<open>
  \<^verbatim>\<open>int(x)\<close> on a JSON value. \<^verbatim>\<open>int\<close> of a string parses it; that case is outside
  the model (\<open>None\<close>).
\<close>

fun py_int :: "json \<Rightarrow> (error + int) option" where
  "py_int (JInt n) = Some (Inr n)"
| "py_int (JBool b) = Some (Inr (if b then 1 else 0))"
| "py_int (JStr s) = None"
| "py_int JNull = Some (Inl TypeError)"
| "py_int (JArr xs) = Some (Inl TypeError)"
| "py_int (JObj kv) = Some (Inl TypeError)"

text \<open>
  One line of the summary that \<^verbatim>\<open>run_device_flow\<close> prints:
  \<^verbatim>\<open>tokens.get(k, "")[:20] + "..." if tokens.get(k) else None\<close>. Only a string can be
  sliced and joined to \<^verbatim>\<open>"..."\<close>; any other true value raises (a \<^verbatim>\<open>TypeError\<close>, for a
  dict a \<^verbatim>\<open>KeyError\<close> from Python 3.12 on, which the model does not tell apart).
\<close>

definition summary_line :: "(string \<times> json) list \<Rightarrow> string \<Rightarrow> error + unit" where
  "summary_line kv k =
     (let v = dict_get kv k in
      if truthy v then (case v of JStr s \<Rightarrow> Inr () | _ \<Rightarrow> Inl TypeError) else Inr ())"

definition print_summary :: "json \<Rightarrow> error + unit" where
  "print_summary tokens =
     (case tokens of
        JObj kv \<Rightarrow>
          (case summary_line kv ''access_token'' of
             Inl e \<Rightarrow> Inl e
           | Inr _ \<Rightarrow>
               (case summary_line kv ''refresh_token'' of
                  Inl e \<Rightarrow> Inl e
                | Inr _ \<Rightarrow> summary_line kv ''id_token''))
      | _ \<Rightarrow> Inl AttributeError)"

text \<open>
  \<^verbatim>\<open>run_device_flow\<close>: \<open>s\<close> answers the device authorization request, \<open>ss\<close> the polls.
  What it prints is not modelled, only whether printing the summary of the tokens raises
  (\<open>summarised\<close>).
\<close>

definition summarised :: "(error + json) option \<times> world \<Rightarrow> (error + json) option \<times> world" where
  "summarised rw =
     (case rw of
        (Some (Inr tokens), w) \<Rightarrow>
          (case print_summary tokens of
             Inl e \<Rightarrow> (Some (Inl e), w)
           | Inr _ \<Rightarrow> (Some (Inr tokens), w))
      | (r, w) \<Rightarrow> (r, w))"

definition run_device_flow ::
  "string \<Rightarrow> string \<Rightarrow> string option \<Rightarrow> step \<Rightarrow> rat \<Rightarrow> step list \<Rightarrow> world
     \<Rightarrow> (error + json) option \<times> world" where
  "run_device_flow client_id scope audience s lag ss w =
     (case start_device_flow client_id scope audience s w of
        (Inl e, w1) \<Rightarrow> (Some (Inl e), w1)
      | (Inr (JObj kv), w1) \<Rightarrow>
          (case map_of kv ''device_code'' of
             None \<Rightarrow> (Some (Inl (KeyError ''device_code'')), w1)
           | Some device_code \<Rightarrow>
               (case py_int (case map_of kv ''interval'' of None \<Rightarrow> JInt 5 | Some v \<Rightarrow> v) of
                  None \<Rightarrow> (None, w1)
                | Some (Inl e) \<Rightarrow> (Some (Inl e), w1)
                | Some (Inr interval) \<Rightarrow>
                    summarised
                      (poll_token_endpoint device_code client_id audience interval 900
                         lag ss w1)))
      | (Inr _, w1) \<Rightarrow> (Some (Inl TypeError), w1))"

section \<open>Token file: save_tokens and load_tokens\<close>

text \<open>
  Files live in a flat name space; the directory of the token file is taken to exist and
  the process to be allowed to create, write and rename files in it, so that the calls
  below fail only on a missing file. \<^verbatim>\<open>open(p, "w")\<close> truncates an existing file and keeps
  its permission bits, or creates the file with the bits \<^verbatim>\<open>0o666 & ~umask\<close> (438 is
  0o666). Writes reach the file as they are made.
\<close>

definition open_w :: "string \<Rightarrow> world \<Rightarrow> world" where
  "open_w p w =
     w\<lparr>files := (files w)(p \<mapsto>
        (case files w p of
           None \<Rightarrow> \<lparr>content = [], perms = 438 AND NOT (umask w)\<rparr>
         | Some f \<Rightarrow> f\<lparr>content := []\<rparr>))\<rparr>"

definition write_to :: "string \<Rightarrow> string \<Rightarrow> world \<Rightarrow> world" where
  "write_to p txt w =
     (case files w p of
        None \<Rightarrow> w
      | Some f \<Rightarrow> w\<lparr>files := (files w)(p \<mapsto> f\<lparr>content := content f @ txt\<rparr>)\<rparr>)"

definition os_chmod :: "string \<Rightarrow> mode \<Rightarrow> world \<Rightarrow> error + world" where
  "os_chmod p m w =
     (case files w p of
        None \<Rightarrow> Inl (FileNotFoundError p)
      | Some f \<Rightarrow> Inr (w\<lparr>files := (files w)(p \<mapsto> f\<lparr>perms := m\<rparr>)\<rparr>))"

definition os_replace :: "string \<Rightarrow> string \<Rightarrow> world \<Rightarrow> error + world" where
  "os_replace src dst w =
     (case files w src of
        None \<Rightarrow> Inl (FileNotFoundError src)
      | Some f \<Rightarrow> Inr (w\<lparr>files := ((files w)(src := None))(dst \<mapsto> f)\<rparr>))"

text \<open>
  \<^verbatim>\<open>json.dump(tokens, f, indent=2)\<close> and \<^verbatim>\<open>json.load(f)\<close> belong to Python's library,
  not to this program: the functions take them as the parameters \<open>json_dumps\<close> (the text
  written for a value) and \<open>json_loads\<close> (the value read from a text, \<open>None\<close> when
  the text is not JSON). Neither function looks into the payload, whose type \<open>'a\<close> is
  left open: whatever Python value \<^verbatim>\<open>json.dump\<close> accepts. 384 is 0o600.
\<close>

definition tmp_path :: "string \<Rightarrow> string" where
  "tmp_path path = path @ ''.tmp''"

definition save_tokens :: "('a \<Rightarrow> string) \<Rightarrow> 'a \<Rightarrow> string \<Rightarrow> world \<Rightarrow> error + world" where
  "save_tokens json_dumps tokens path w =
     (let tmp = tmp_path path;
          w1 = open_w tmp w;
          w2 = write_to tmp (json_dumps tokens) w1;
          w3 = write_to tmp [CHR 0x0A] w2
      in case os_chmod tmp 384 w3 of
           Inl e \<Rightarrow> Inl e
         | Inr w4 \<Rightarrow> os_replace tmp path w4)"

text \<open>
  The same run, listing every state of the file system that another process can see
  while \<^verbatim>\<open>save_tokens\<close> is at work: before it starts, after the \<^verbatim>\<open>open\<close>, after each of
  the two writes, after the \<^verbatim>\<open>chmod\<close> and after the \<^verbatim>\<open>replace\<close>.
\<close>

definition save_tokens_states :: "('a \<Rightarrow> string) \<Rightarrow> 'a \<Rightarrow> string \<Rightarrow> world \<Rightarrow> world list" where
  "save_tokens_states json_dumps tokens path w =
     (let tmp = tmp_path path;
          w1 = open_w tmp w;
          w2 = write_to tmp (json_dumps tokens) w1;
          w3 = write_to tmp [CHR 0x0A] w2
      in [w, w1, w2, w3] @
         (case os_chmod tmp 384 w3 of
            Inl e \<Rightarrow> []
          | Inr w4 \<Rightarrow> w4 # (case os_replace tmp path w4 of Inl e \<Rightarrow> [] | Inr w5 \<Rightarrow> [w5])))"

definition load_tokens :: "(string \<Rightarrow> 'a option) \<Rightarrow> string \<Rightarrow> world \<Rightarrow> error + 'a" where
  "load_tokens json_loads path w =
     (case files w path of
        None \<Rightarrow> Inl (FileNotFoundError path)
      | Some f \<Rightarrow>
          (case json_loads (content f) of None \<Rightarrow> Inl JSONDecodeError | Some j \<Rightarrow> Inr j))"


text \<open>Permission bits: 63 is 0o077 (any access for group or other), 4 is 0o004.\<close>

definition owner_only :: "mode \<Rightarrow> bool" where
  "owner_only m = (m AND 63 = 0)"

definition world_readable :: "mode \<Rightarrow> bool" where
  "world_readable m = (m AND 4 \<noteq> 0)"

section \<open>refresh_with_rt and revoke_token\<close>

definition refresh_request :: "json \<Rightarrow> string \<Rightarrow> string option \<Rightarrow> request" where
  "refresh_request refresh_token client_id audience =
     \<lparr>url = TOKEN_ENDPOINT, headers = form_headers,
      form = with_audience audience
        [(''grant_type'', JStr ''refresh_token''),
         (''client_id'', JStr client_id),
         (''refresh_token'', refresh_token)]\<rparr>"

definition refresh_with_rt ::
  "json \<Rightarrow> string \<Rightarrow> string option \<Rightarrow> step \<Rightarrow> world \<Rightarrow> (error + json) \<times> world" where
  "refresh_with_rt refresh_token client_id audience s w =
     (let w1 = requests_post (refresh_request refresh_token client_id audience) s w in
      case outcome s of
        PostRaised \<Rightarrow> (Inl RequestException, w1)
      | PostReturned resp \<Rightarrow>
          if status_code resp \<noteq> 200 then
            (let body = (case json_body resp of
                           Some j \<Rightarrow> Inl j
                         | None \<Rightarrow> Inr (body_text resp))
             in (Inl (RefreshFailed (status_code resp) body), w1))
          else (resp_json resp, w1))"

definition revoke_request :: "string \<Rightarrow> string \<Rightarrow> string \<Rightarrow> request" where
  "revoke_request refresh_token access_token client_id =
     \<lparr>url = REALM_BASE @ ''/revocation'',
      headers = [(''Content-Type'', ''application/x-www-form-urlencoded''),
                 (''Authorization'', ''Bearer '' @ access_token)],
      form = [(''token'', JStr refresh_token),
              (''token_type_hint'', JStr ''refresh_token''),
              (''client_id'', JStr client_id)]\<rparr>"

definition revoke_token ::
  "string \<Rightarrow> string \<Rightarrow> string \<Rightarrow> step \<Rightarrow> world \<Rightarrow> (error + http_response) \<times> world" where
  "revoke_token refresh_token access_token client_id s w =
     (let w1 = requests_post (revoke_request refresh_token access_token client_id) s w in
      case outcome s of
        PostRaised \<Rightarrow> (Inl RequestException, w1)
      | PostReturned resp \<Rightarrow> (Inr resp, w1))"

section \<open>The command line: revoke and refresh\<close>

text \<open>
  What a run of the script leaves behind: the exit status and the lines written to
  standard output and standard error, each line by the values it is formatted from. A run
  that falls off the end of the script exits with status 0; \<^verbatim>\<open>except Exception\<close> prints
  the error and exits with status 1 (\<^verbatim>\<open>sys.exit\<close> inside the \<^verbatim>\<open>try\<close> is not caught by it).
  An interrupt from the keyboard is not modelled.
\<close>

datatype message =
    RevokeNeedsBothTokens
  | RevokedOk
  | RevokeFailed int string
  | NoRefreshTokenFound
  | Refreshed json
  | TokensSaved string
  | ErrorLine error

record cli_result =
  exit_code :: int
  stdout :: "message list"
  stderr :: "message list"

definition cli_revoke ::
  "string option \<Rightarrow> string option \<Rightarrow> string \<Rightarrow> step \<Rightarrow> world \<Rightarrow> cli_result \<times> world" where
  "cli_revoke token access_token client_id s w =
     (if \<not> given token \<or> \<not> given access_token then
        (\<lparr>exit_code = 2, stdout = [], stderr = [RevokeNeedsBothTokens]\<rparr>, w)
      else
        case revoke_token (the token) (the access_token) client_id s w of
          (Inl e, w1) \<Rightarrow> (\<lparr>exit_code = 1, stdout = [], stderr = [ErrorLine e]\<rparr>, w1)
        | (Inr resp, w1) \<Rightarrow>
            if status_code resp = 200 then
              (\<lparr>exit_code = 0, stdout = [RevokedOk], stderr = []\<rparr>, w1)
            else
              (\<lparr>exit_code = 1, stdout = [],
                stderr = [RevokeFailed (status_code resp) (body_text resp)]\<rparr>, w1))"

text \<open>
  \<^verbatim>\<open>tokens.update(new_tokens)\<close>: a dict argument overwrites the values of the keys it
  shares and appends its other keys. An argument that is not iterable raises; a non-empty
  string raises on its first character; a non-empty list is read as a list of pairs, which
  is outside the model (\<open>None\<close>).
\<close>

fun dict_update :: "(string \<times> json) list \<Rightarrow> json \<Rightarrow> (error + (string \<times> json) list) option" where
  "dict_update kv (JObj new) = Some (Inr (fold (\<lambda>(k, v). AList.update k v) new kv))"
| "dict_update kv JNull = Some (Inl TypeError)"
| "dict_update kv (JBool b) = Some (Inl TypeError)"
| "dict_update kv (JInt n) = Some (Inl TypeError)"
| "dict_update kv (JStr s) = Some (if s = [] then Inr kv else Inl ValueError)"
| "dict_update kv (JArr xs) = (if xs = [] then Some (Inr kv) else None)"

text \<open>
  The rest of the refresh action once the tokens are in hand: print the expiry (which
  needs a dict), save, print where.
\<close>

definition report_and_save ::
  "(json \<Rightarrow> string) \<Rightarrow> json \<Rightarrow> string \<Rightarrow> world \<Rightarrow> cli_result \<times> world" where
  "report_and_save json_dumps tokens file w =
     (case tokens of
        JObj kv \<Rightarrow>
          (case save_tokens json_dumps tokens file w of
             Inl e \<Rightarrow>
               (\<lparr>exit_code = 1, stdout = [Refreshed (dict_get kv ''expires_in'')],
                 stderr = [ErrorLine e]\<rparr>, w)
           | Inr w1 \<Rightarrow>
               (\<lparr>exit_code = 0,
                 stdout = [Refreshed (dict_get kv ''expires_in''), TokensSaved file],
                 stderr = []\<rparr>, w1))
      | _ \<Rightarrow> (\<lparr>exit_code = 1, stdout = [], stderr = [ErrorLine AttributeError]\<rparr>, w))"

definition failed :: "error \<Rightarrow> world \<Rightarrow> (cli_result \<times> world) option" where
  "failed e w = Some (\<lparr>exit_code = 1, stdout = [], stderr = [ErrorLine e]\<rparr>, w)"

definition cli_refresh ::
  "(string \<Rightarrow> json option) \<Rightarrow> (json \<Rightarrow> string) \<Rightarrow> string option \<Rightarrow> string \<Rightarrow> string option
     \<Rightarrow> string \<Rightarrow> step \<Rightarrow> world \<Rightarrow> (cli_result \<times> world) option" where
  "cli_refresh json_loads json_dumps token client_id audience file s w =
     (if given token then
        (case refresh_with_rt (JStr (the token)) client_id audience s w of
           (Inl e, w1) \<Rightarrow> failed e w1
         | (Inr tokens, w1) \<Rightarrow> Some (report_and_save json_dumps tokens file w1))
      else
        (case load_tokens json_loads file w of
           Inl e \<Rightarrow> failed e w
         | Inr (JObj kv) \<Rightarrow>
             (let rt = dict_get kv ''refresh_token'' in
              if \<not> truthy rt then
                Some (\<lparr>exit_code = 2, stdout = [], stderr = [NoRefreshTokenFound]\<rparr>, w)
              else
                (case refresh_with_rt rt client_id audience s w of
                   (Inl e, w1) \<Rightarrow> failed e w1
                 | (Inr new_tokens, w1) \<Rightarrow>
                     (case dict_update kv new_tokens of
                        None \<Rightarrow> None
                      | Some (Inl e) \<Rightarrow> failed e w1
                      | Some (Inr kv') \<Rightarrow>
                          Some (report_and_save json_dumps (JObj kv') file w1))))
         | Inr _ \<Rightarrow> failed AttributeError w))"

section \<open>A rendering of Python's json module\<close>

text \<open>
  \<^verbatim>\<open>json.dumps(v, indent=2)\<close> and \<^verbatim>\<open>json.loads\<close> on the values above, written after the
  documentation of Python's \<^verbatim>\<open>json\<close> module: two spaces of indentation for each level,
  a comma and a line break between items, \<^verbatim>\<open>": "\<close> after a key, ASCII output with the
  short escapes and \<^verbatim>\<open>\uXXXX\<close> for every other character outside the printable ASCII
  range (a character here is a code point below 256). The reader skips white space,
  rejects control characters inside strings, leading zeros and trailing commas, and keeps
  the last value of a repeated key; numbers with a fraction or an exponent and escapes
  of code points from 256 on are not read. It takes fuel, the length of its input being
  enough. The two stand for \<^verbatim>\<open>json.dump\<close> and \<^verbatim>\<open>json.load\<close> where the parameters
  \<open>json_dumps\<close> and \<open>json_loads\<close> have to be filled in.
\<close>

definition dquote :: char where "dquote = CHR 0x22"
definition backslash :: char where "backslash = CHR 0x5C"
definition newline :: char where "newline = CHR 0x0A"

definition hex_digit :: "nat \<Rightarrow> char" where
  "hex_digit n = ''0123456789abcdef'' ! (n mod 16)"

definition escape_char :: "char \<Rightarrow> string" where
  "escape_char c =
     (if c = dquote then [backslash, dquote]
      else if c = backslash then [backslash, backslash]
      else if c = newline then [backslash, CHR ''n'']
      else if c = CHR 0x0D then [backslash, CHR ''r'']
      else if c = CHR 0x09 then [backslash, CHR ''t'']
      else if c = CHR 0x08 then [backslash, CHR ''b'']
      else if c = CHR 0x0C then [backslash, CHR ''f'']
      else if 32 \<le> (of_char c :: nat) \<and> (of_char c :: nat) \<le> 126 then [c]
      else [backslash, CHR ''u'', CHR ''0'', CHR ''0'',
            hex_digit (of_char c div 16), hex_digit (of_char c)])"

definition quoted :: "string \<Rightarrow> string" where
  "quoted s = dquote # concat (map escape_char s) @ [dquote]"

fun show_nat :: "nat \<Rightarrow> string" where
  "show_nat n = (if n < 10 then [hex_digit n] else show_nat (n div 10) @ [hex_digit (n mod 10)])"

definition show_int :: "int \<Rightarrow> string" where
  "show_int i = (if i < 0 then CHR ''-'' # show_nat (nat (- i)) else show_nat (nat i))"

definition indent :: "nat \<Rightarrow> string" where
  "indent lvl = replicate (2 * lvl) CHR '' ''"

fun dumps_at :: "nat \<Rightarrow> json \<Rightarrow> string"
  and dumps_items :: "nat \<Rightarrow> json list \<Rightarrow> string"
  and dumps_members :: "nat \<Rightarrow> (string \<times> json) list \<Rightarrow> string" where
  "dumps_at lvl JNull = ''null''"
| "dumps_at lvl (JBool b) = (if b then ''true'' else ''false'')"
| "dumps_at lvl (JInt i) = show_int i"
| "dumps_at lvl (JStr s) = quoted s"
| "dumps_at lvl (JArr xs) =
     (if xs = [] then ''[]''
      else ''['' @ dumps_items (Suc lvl) xs @ [newline] @ indent lvl @ '']'')"
| "dumps_at lvl (JObj kv) =
     (if kv = [] then ''{}''
      else ''{'' @ dumps_members (Suc lvl) kv @ [newline] @ indent lvl @ ''}'')"
| "dumps_items lvl [] = []"
| "dumps_items lvl (x # xs) =
     [newline] @ indent lvl @ dumps_at lvl x @ (if xs = [] then [] else '','') @ dumps_items lvl xs"
| "dumps_members lvl [] = []"
| "dumps_members lvl (m # ms) =
     [newline] @ indent lvl @ quoted (fst m) @ '': '' @ dumps_at lvl (snd m)
       @ (if ms = [] then [] else '','') @ dumps_members lvl ms"

definition py_json_dumps :: "json \<Rightarrow> string" where
  "py_json_dumps v = dumps_at 0 v"

definition is_ws :: "char \<Rightarrow> bool" where
  "is_ws c = (c = CHR '' '' \<or> c = newline \<or> c = CHR 0x0D \<or> c = CHR 0x09)"

definition skip_ws :: "string \<Rightarrow> string" where
  "skip_ws s = dropWhile is_ws s"

definition is_digit :: "char \<Rightarrow> bool" where
  "is_digit c = (48 \<le> (of_char c :: nat) \<and> (of_char c :: nat) \<le> 57)"

definition digit_val :: "char \<Rightarrow> nat" where
  "digit_val c = of_char c - 48"

definition hex_val :: "char \<Rightarrow> nat option" where
  "hex_val c =
     (if is_digit c then Some (digit_val c)
      else if 97 \<le> (of_char c :: nat) \<and> (of_char c :: nat) \<le> 102 then Some (of_char c - 87)
      else if 65 \<le> (of_char c :: nat) \<and> (of_char c :: nat) \<le> 70 then Some (of_char c - 55)
      else None)"

text \<open>The characters of a string literal, read after its opening quote.\<close>

fun parse_chars :: "string \<Rightarrow> (string \<times> string) option" where
  "parse_chars [] = None"
| "parse_chars (c # cs) =
     (if c = dquote then Some ([], cs)
      else if c = backslash then
        (case cs of
           [] \<Rightarrow> None
         | e # r \<Rightarrow>
             if e = CHR ''u'' then
               (case r of
                  h1 # h2 # h3 # h4 # r' \<Rightarrow>
                    (case (hex_val h1, hex_val h2, hex_val h3, hex_val h4) of
                       (Some a, Some b, Some c', Some d) \<Rightarrow>
                         if a = 0 \<and> b = 0 then
                           map_option (\<lambda>(s, t). (char_of (16 * c' + d) # s, t)) (parse_chars r')
                         else None
                     | _ \<Rightarrow> None)
                | _ \<Rightarrow> None)
             else
               (case (if e = dquote then Some dquote
                      else if e = backslash then Some backslash
                      else if e = CHR ''/'' then Some CHR ''/''
                      else if e = CHR ''n'' then Some newline
                      else if e = CHR ''r'' then Some (CHR 0x0D)
                      else if e = CHR ''t'' then Some (CHR 0x09)
                      else if e = CHR ''b'' then Some (CHR 0x08)
                      else if e = CHR ''f'' then Some (CHR 0x0C)
                      else None) of
                  None \<Rightarrow> None
                | Some x \<Rightarrow> map_option (\<lambda>(s, t). (x # s, t)) (parse_chars r)))
      else if (of_char c :: nat) < 32 then None
      else map_option (\<lambda>(s, t). (c # s, t)) (parse_chars cs))"

definition parse_nat :: "string \<Rightarrow> (nat \<times> string) option" where
  "parse_nat s =
     (let ds = takeWhile is_digit s in
      if ds = [] \<or> (length ds > 1 \<and> hd ds = CHR ''0'') then None
      else Some (foldl (\<lambda>n c. 10 * n + digit_val c) 0 ds, dropWhile is_digit s))"

fun parse_value :: "nat \<Rightarrow> string \<Rightarrow> (json \<times> string) option"
  and parse_items :: "nat \<Rightarrow> string \<Rightarrow> (json list \<times> string) option"
  and parse_members :: "nat \<Rightarrow> string \<Rightarrow> ((string \<times> json) list \<times> string) option" where
  "parse_value 0 s = None"
| "parse_value (Suc n) s =
     (case s of
        [] \<Rightarrow> None
      | c # cs \<Rightarrow>
          if c = dquote then map_option (\<lambda>(t, r). (JStr t, r)) (parse_chars cs)
          else if c = CHR ''['' then
            (case skip_ws cs of
               [] \<Rightarrow> None
             | c' # r \<Rightarrow>
                 if c' = CHR '']'' then Some (JArr [], r)
                 else map_option (\<lambda>(xs, r'). (JArr xs, r')) (parse_items n (c' # r)))
          else if c = CHR ''{'' then
            (case skip_ws cs of
               [] \<Rightarrow> None
             | c' # r \<Rightarrow>
                 if c' = CHR ''}'' then Some (JObj [], r)
                 else
                   map_option (\<lambda>(kv, r'). (JObj (fold (\<lambda>(k, v). AList.update k v) kv []), r'))
                     (parse_members n (c' # r)))
          else if c = CHR ''-'' then map_option (\<lambda>(k, r). (JInt (- int k), r)) (parse_nat cs)
          else if is_digit c then map_option (\<lambda>(k, r). (JInt (int k), r)) (parse_nat s)
          else if take 4 s = ''null'' then Some (JNull, drop 4 s)
          else if take 4 s = ''true'' then Some (JBool True, drop 4 s)
          else if take 5 s = ''false'' then Some (JBool False, drop 5 s)
          else None)"
| "parse_items 0 s = None"
| "parse_items (Suc n) s =
     (case parse_value n s of
        None \<Rightarrow> None
      | Some (x, r) \<Rightarrow>
          (case skip_ws r of
             [] \<Rightarrow> None
           | c # r' \<Rightarrow>
               if c = CHR '']'' then Some ([x], r')
               else if c = CHR '','' then
                 map_option (\<lambda>(xs, r''). (x # xs, r'')) (parse_items n (skip_ws r'))
               else None))"
| "parse_members 0 s = None"
| "parse_members (Suc n) s =
     (case s of
        [] \<Rightarrow> None
      | c # cs \<Rightarrow>
          if c = dquote then
            (case parse_chars cs of
               None \<Rightarrow> None
             | Some (k, r) \<Rightarrow>
                 (case skip_ws r of
                    [] \<Rightarrow> None
                  | c1 # r1 \<Rightarrow>
                      if c1 = CHR '':'' then
                        (case parse_value n (skip_ws r1) of
                           None \<Rightarrow> None
                         | Some (v, r2) \<Rightarrow>
                             (case skip_ws r2 of
                                [] \<Rightarrow> None
                              | c3 # r3 \<Rightarrow>
                                  if c3 = CHR ''}'' then Some ([(k, v)], r3)
                                  else if c3 = CHR '','' then
                                    map_option (\<lambda>(kv, r4). ((k, v) # kv, r4))
                                      (parse_members n (skip_ws r3))
                                  else None))
                      else None))
          else None)"

definition py_json_loads :: "string \<Rightarrow> json option" where
  "py_json_loads s =
     (case parse_value (Suc (length s)) (skip_ws s) of
        None \<Rightarrow> None
      | Some (v, r) \<Rightarrow> if skip_ws r = [] then Some v else None)"

text \<open>
  The values that a Python dict can be: within every object the keys are distinct.
\<close>

fun wf_json :: "json \<Rightarrow> bool"
  and wf_items :: "json list \<Rightarrow> bool"
  and wf_members :: "(string \<times> json) list \<Rightarrow> bool" where
  "wf_json (JArr xs) = wf_items xs"
| "wf_json (JObj kv) = (distinct (map fst kv) \<and> wf_members kv)"
| "wf_json v = True"
| "wf_items [] = True"
| "wf_items (x # xs) = (wf_json x \<and> wf_items xs)"
| "wf_members [] = True"
| "wf_members (m # ms) = (wf_json (snd m) \<and> wf_members ms)"

text \<open>Fuel that is enough to read a value back: its number of nodes.\<close>

fun nodes :: "json \<Rightarrow> nat"
  and nodes_items :: "json list \<Rightarrow> nat"
  and nodes_members :: "(string \<times> json) list \<Rightarrow> nat" where
  "nodes (JArr xs) = Suc (nodes_items xs)"
| "nodes (JObj kv) = Suc (nodes_members kv)"
| "nodes v = 1"
| "nodes_items [] = 0"
| "nodes_items (x # xs) = Suc (nodes x + nodes_items xs)"
| "nodes_members [] = 0"
| "nodes_members (m # ms) = Suc (nodes (snd m) + nodes_members ms)"

text \<open>What may follow a printed number: anything but a digit.\<close>

definition ok_rest :: "string \<Rightarrow> bool" where
  "ok_rest r = (case r of [] \<Rightarrow> True | c # _ \<Rightarrow> \<not> is_digit c)"

text \<open>What a printed value starts with.\<close>

definition value_start :: "char \<Rightarrow> bool" where
  "value_start c = (\<not> is_ws c \<and> c \<noteq> CHR '']'' \<and> c \<noteq> CHR ''}'')"

text \<open>
  \<^verbatim>\<open>json.dump\<close> accepts more than \<^verbatim>\<open>json.load\<close> returns. The Python values below add the
  tuple, which is written as a list; \<open>to_json\<close> is the JSON value that is written for a
  Python value, \<open>of_json\<close> the Python value that is returned for a JSON value.
\<close>

datatype pyvalue =
    PNone
  | PBool bool
  | PInt int
  | PStr string
  | PList "pyvalue list"
  | PTuple "pyvalue list"
  | PDict "(string \<times> pyvalue) list"

fun to_json :: "pyvalue \<Rightarrow> json"
  and to_json_items :: "pyvalue list \<Rightarrow> json list"
  and to_json_members :: "(string \<times> pyvalue) list \<Rightarrow> (string \<times> json) list" where
  "to_json PNone = JNull"
| "to_json (PBool b) = JBool b"
| "to_json (PInt i) = JInt i"
| "to_json (PStr s) = JStr s"
| "to_json (PList xs) = JArr (to_json_items xs)"
| "to_json (PTuple xs) = JArr (to_json_items xs)"
| "to_json (PDict kv) = JObj (to_json_members kv)"
| "to_json_items [] = []"
| "to_json_items (x # xs) = to_json x # to_json_items xs"
| "to_json_members [] = []"
| "to_json_members (m # ms) = (fst m, to_json (snd m)) # to_json_members ms"

fun of_json :: "json \<Rightarrow> pyvalue"
  and of_json_items :: "json list \<Rightarrow> pyvalue list"
  and of_json_members :: "(string \<times> json) list \<Rightarrow> (string \<times> pyvalue) list" where
  "of_json JNull = PNone"
| "of_json (JBool b) = PBool b"
| "of_json (JInt i) = PInt i"
| "of_json (JStr s) = PStr s"
| "of_json (JArr xs) = PList (of_json_items xs)"
| "of_json (JObj kv) = PDict (of_json_members kv)"
| "of_json_items [] = []"
| "of_json_items (x # xs) = of_json x # of_json_items xs"
| "of_json_members [] = []"
| "of_json_members (m # ms) = (fst m, of_json (snd m)) # of_json_members ms"



section \<open>Notions the properties are stated with\<close>

text \<open>
  An answer that keeps the loop polling: a response with a status other than 200 whose
  body is a JSON object with \<^verbatim>\<open>error\<close> equal to \<^verbatim>\<open>authorization_pending\<close> or
  \<^verbatim>\<open>slow_down\<close>.
\<close>

definition keeps_polling :: "step \<Rightarrow> bool" where
  "keeps_polling s =
     (case outcome s of
        PostRaised \<Rightarrow> False
      | PostReturned resp \<Rightarrow>
          status_code resp \<noteq> 200 \<and>
          (case json_body resp of
             Some (JObj kv) \<Rightarrow>
               dict_get kv ''error'' = JStr ''authorization_pending''
               \<or> dict_get kv ''error'' = JStr ''slow_down''
           | _ \<Rightarrow> False))"

definition slows_down :: "step \<Rightarrow> bool" where
  "slows_down s =
     (case outcome s of
        PostRaised \<Rightarrow> False
      | PostReturned resp \<Rightarrow>
          status_code resp \<noteq> 200 \<and>
          (case json_body resp of
             Some (JObj kv) \<Rightarrow> dict_get kv ''error'' = JStr ''slow_down''
           | _ \<Rightarrow> False))"

text \<open>
  The seconds of sleep that a script of such answers asks for when the loop, holding the
  interval \<open>cur\<close>, goes through all of it; and the seconds its HTTP calls take.
\<close>

fun sleep_total :: "int \<Rightarrow> step list \<Rightarrow> int" where
  "sleep_total cur [] = 0"
| "sleep_total cur (s # ss) =
     (let cur' = (if slows_down s then min (cur + 5) 30 else cur)
      in cur' + sleep_total cur' ss)"

definition call_total :: "step list \<Rightarrow> rat" where
  "call_total ss = sum_list (map took ss)"

section \<open>Concrete inputs\<close>

definition quiet_world :: world where
  "quiet_world = \<lparr>now = 0, events = [], files = Map.empty, umask = 18\<rparr>"

definition error_answer :: "int \<Rightarrow> string \<Rightarrow> rat \<Rightarrow> step" where
  "error_answer code e d =
     \<lparr>outcome = PostReturned
        \<lparr>status_code = code, json_body = Some (JObj [(''error'', JStr e)]), body_text = []\<rparr>,
      took = d\<rparr>"

definition json_answer :: "int \<Rightarrow> json \<Rightarrow> step" where
  "json_answer code j =
     \<lparr>outcome = PostReturned \<lparr>status_code = code, json_body = Some j, body_text = []\<rparr>,
      took = 0\<rparr>"

definition text_answer :: "int \<Rightarrow> string \<Rightarrow> step" where
  "text_answer code txt =
     \<lparr>outcome = PostReturned \<lparr>status_code = code, json_body = None, body_text = txt\<rparr>,
      took = 0\<rparr>"


definition sample_tokens :: json where
  "sample_tokens =
     JObj [(''access_token'', JStr ''a1''), (''refresh_token'', JStr ''r1''),
           (''expires_in'', JInt 3600), (''x-roles'', JArr [JStr ''vm'', JNull])]"

section \<open>How the poll loop moves\<close>

lemma poll_loop_timed_out:
  "now w - began > of_int T \<Longrightarrow> poll_loop rq T began cur ss w = (Some (Inl PollTimeout), w)"
  by (cases ss) simp_all

lemma poll_loop_continue:
  assumes "keeps_polling s" and "now w - began \<le> of_int T"
  shows "poll_loop rq T began cur (s # ss) w =
           poll_loop rq T began (if slows_down s then min (cur + 5) 30 else cur) ss
             (time_sleep (if slows_down s then min (cur + 5) 30 else cur)
                (requests_post rq s w))"
  using assms
  by (auto simp add: keeps_polling_def slows_down_def Let_def
      split: post_result.splits option.splits json.splits)

lemma now_after_round:
  "now (time_sleep n (requests_post rq s w)) = now w + took s + of_int n"
  by (simp add: time_sleep_def requests_post_def)

lemma events_after_round:
  "events (time_sleep n (requests_post rq s w)) = Slept n # Posted rq (took s) # events w"
  by (simp add: time_sleep_def requests_post_def)

text \<open>The loop only ever adds to the record of what was done.\<close>

lemma poll_loop_events:
  "\<exists>evs. events (snd (poll_loop rq T began cur ss w)) = evs @ events w"
proof (induction ss arbitrary: cur w)
  case Nil
  then show ?case by simp
next
  case (Cons s ss)
  define c where "c = (if slows_down s then min (cur + 5) 30 else cur)"
  show ?case
  proof (cases "keeps_polling s \<and> now w - began \<le> of_int T")
    case True
    then have step: "poll_loop rq T began cur (s # ss) w =
        poll_loop rq T began c ss (time_sleep c (requests_post rq s w))"
      unfolding c_def by (intro poll_loop_continue) simp_all
    obtain evs where
      "events (snd (poll_loop rq T began c ss (time_sleep c (requests_post rq s w)))) =
         evs @ events (time_sleep c (requests_post rq s w))"
      using Cons.IH by blast
    then have "events (snd (poll_loop rq T began cur (s # ss) w)) =
        (evs @ [Slept c, Posted rq (took s)]) @ events w"
      unfolding step events_after_round by simp
    then show ?thesis by blast
  next
    case False
    have "events (requests_post rq s w) = [Posted rq (took s)] @ events w"
      by (simp add: requests_post_def)
    with False show ?thesis
      by (auto simp add: keeps_polling_def Let_def
          split: post_result.splits option.splits json.splits)
  qed
qed

text \<open>An iteration that gets past the elapsed-time check issues its POST.\<close>

lemma poll_loop_first_post:
  assumes "now w - began \<le> of_int T"
  shows "\<exists>evs. events (snd (poll_loop rq T began cur (s # ss) w)) =
           evs @ Posted rq (took s) # events w"
proof (cases "keeps_polling s")
  case True
  define c where "c = (if slows_down s then min (cur + 5) 30 else cur)"
  have step: "poll_loop rq T began cur (s # ss) w =
      poll_loop rq T began c ss (time_sleep c (requests_post rq s w))"
    unfolding c_def using True assms by (intro poll_loop_continue) simp_all
  obtain evs where
    "events (snd (poll_loop rq T began c ss (time_sleep c (requests_post rq s w)))) =
       evs @ events (time_sleep c (requests_post rq s w))"
    using poll_loop_events by blast
  then have "events (snd (poll_loop rq T began cur (s # ss) w)) =
      (evs @ [Slept c]) @ Posted rq (took s) # events w"
    unfolding step events_after_round by simp
  then show ?thesis by blast
next
  case False
  have "events (requests_post rq s w) = [] @ Posted rq (took s) # events w"
    by (simp add: requests_post_def)
  with False assms show ?thesis
    by (auto simp add: keeps_polling_def Let_def
        split: post_result.splits option.splits json.splits)
qed

text \<open>
  A script of answers that all keep the loop polling, and that takes the clock past the
  timeout, ends in the timeout error. The last things done were one POST and one sleep,
  and the clock is past the timeout by no more than these two took together, because the
  check before them was passed.
\<close>

lemma poll_loop_times_out:
  assumes "\<forall>s\<in>set ss. keeps_polling s"
    and "now w - began \<le> of_int T"
    and "of_int T < now w - began + call_total ss + of_int (sleep_total cur ss)"
  shows "\<exists>w' n d evs. poll_loop rq T began cur ss w = (Some (Inl PollTimeout), w')
           \<and> events w' = Slept n # Posted rq d # evs
           \<and> d \<in> took ` set ss
           \<and> now w' - began - of_int T \<le> d + of_int n"
  using assms
proof (induction ss arbitrary: cur w)
  case Nil
  then show ?case by (simp add: call_total_def)
next
  case (Cons s ss)
  define c where "c = (if slows_down s then min (cur + 5) 30 else cur)"
  define w1 where "w1 = time_sleep c (requests_post rq s w)"
  have step: "poll_loop rq T began cur (s # ss) w = poll_loop rq T began c ss w1"
    unfolding c_def w1_def using Cons.prems(1,2) by (intro poll_loop_continue) simp_all
  have now1: "now w1 = now w + took s + of_int c"
    unfolding w1_def by (rule now_after_round)
  have ev1: "events w1 = Slept c # Posted rq (took s) # events w"
    unfolding w1_def by (rule events_after_round)
  show ?case
  proof (cases "now w1 - began > of_int T")
    case True
    then have "poll_loop rq T began cur (s # ss) w = (Some (Inl PollTimeout), w1)"
      unfolding step by (rule poll_loop_timed_out)
    moreover have "now w1 - began - of_int T \<le> took s + of_int c"
      using Cons.prems(2) now1 by simp
    moreover have "took s \<in> took ` set (s # ss)" by simp
    ultimately show ?thesis using ev1 by blast
  next
    case False
    have total: "call_total (s # ss) + of_int (sleep_total cur (s # ss)) =
        took s + of_int c + (call_total ss + of_int (sleep_total c ss))"
      by (simp add: call_total_def c_def Let_def)
    have "\<exists>w' n d evs. poll_loop rq T began c ss w1 = (Some (Inl PollTimeout), w')
           \<and> events w' = Slept n # Posted rq d # evs
           \<and> d \<in> took ` set ss
           \<and> now w' - began - of_int T \<le> d + of_int n"
    proof (rule Cons.IH)
      show "\<forall>s\<in>set ss. keeps_polling s" using Cons.prems(1) by simp
      show "now w1 - began \<le> of_int T" using False by simp
      show "of_int T < now w1 - began + call_total ss + of_int (sleep_total c ss)"
        using Cons.prems(3) total now1 by simp
    qed
    then obtain w' n d evs where
      r: "poll_loop rq T began c ss w1 = (Some (Inl PollTimeout), w')"
      and e: "events w' = Slept n # Posted rq d # evs"
      and d: "d \<in> took ` set ss"
      and b: "now w' - began - of_int T \<le> d + of_int n"
      by blast
    from d have d': "d \<in> took ` set (s # ss)" by simp
    have "poll_loop rq T began cur (s # ss) w = (Some (Inl PollTimeout), w')
        \<and> events w' = Slept n # Posted rq d # evs
        \<and> d \<in> took ` set (s # ss)
        \<and> now w' - began - of_int T \<le> d + of_int n"
      using r e d' b unfolding step by simp
    then show ?thesis by (intro exI)
  qed
qed

lemma call_total_nonneg: "\<forall>s\<in>set ss. 0 \<le> took s \<Longrightarrow> 0 \<le> call_total ss"
  by (induction ss) (simp_all add: call_total_def)

text \<open>
  With a clock that moves only while the program sleeps (HTTP calls take no time, no
  time passes before the first check), the overshoot is at most the last interval slept.
\<close>

lemma poll_timeout_one_interval:
  assumes "\<forall>s\<in>set ss. keeps_polling s"
    and "\<forall>s\<in>set ss. took s = 0"
    and "0 \<le> T"
    and "T < sleep_total (max 5 (if i = 0 then 5 else i)) ss"
  shows "\<exists>w' n evs.
           poll_token_endpoint dc cid aud i T 0 ss w = (Some (Inl PollTimeout), w')
           \<and> events w' = Slept n # evs
           \<and> now w' - now w - of_int T \<le> of_int n"
proof -
  have "call_total ss = 0"
    using assms(2) by (induction ss) (simp_all add: call_total_def)
  moreover have "rat_of_int T < of_int (sleep_total (max 5 (if i = 0 then 5 else i)) ss)"
    using assms(4) by simp
  ultimately have lt: "of_int T < now (elapse 0 w) - now w + call_total ss
      + of_int (sleep_total (max 5 (if i = 0 then 5 else i)) ss)"
    by (simp add: elapse_def)
  have le: "now (elapse 0 w) - now w \<le> of_int T"
    using assms(3) by (simp add: elapse_def)
  have "\<exists>w' n d evs.
      poll_loop (token_request dc cid aud) T (now w) (max 5 (if i = 0 then 5 else i)) ss
        (elapse 0 w) = (Some (Inl PollTimeout), w')
      \<and> events w' = Slept n # Posted (token_request dc cid aud) d # evs
      \<and> d \<in> took ` set ss
      \<and> now w' - now w - of_int T \<le> d + of_int n"
    using assms(1) le lt by (rule poll_loop_times_out)
  then obtain w' n d evs where
    r: "poll_loop (token_request dc cid aud) T (now w) (max 5 (if i = 0 then 5 else i)) ss
       (elapse 0 w) = (Some (Inl PollTimeout), w')"
    and e: "events w' = Slept n # Posted (token_request dc cid aud) d # evs"
    and d: "d \<in> took ` set ss"
    and b: "now w' - now w - of_int T \<le> d + of_int n"
    by blast
  from d assms(2) have "d = 0" by auto
  with b have b': "now w' - now w - of_int T \<le> of_int n" by simp
  have "poll_token_endpoint dc cid aud i T 0 ss w = (Some (Inl PollTimeout), w')
      \<and> events w' = Slept n # Posted (token_request dc cid aud) d # evs
      \<and> now w' - now w - of_int T \<le> of_int n"
    using r e b' by (simp add: poll_token_endpoint_def Let_def)
  then show ?thesis by (intro exI)
qed

text \<open>
  The status is looked at before the body: an answer with status 200 ends the loop with
  its JSON, whatever that JSON holds.
\<close>

lemma status_200_returns_body:
  assumes "now w - began \<le> of_int T"
    and "outcome s = PostReturned resp"
    and "status_code resp = 200"
  shows "poll_loop rq T began cur (s # ss) w = (Some (resp_json resp), requests_post rq s w)"
  using assms by (simp add: Let_def)

lemma slow_down_step:
  assumes "now w - began \<le> of_int T"
    and "outcome s = PostReturned resp"
    and "status_code resp \<noteq> 200"
    and "json_body resp = Some (JObj kv)"
    and "dict_get kv ''error'' = JStr ''slow_down''"
  shows "poll_loop rq T began cur (s # ss) w =
           poll_loop rq T began (min (cur + 5) 30) ss
             (time_sleep (min (cur + 5) 30) (requests_post rq s w))"
  using assms by (simp add: Let_def)

text \<open>From an interval of at most 30 the new interval is not lower, and is 5 more up to 25.\<close>

lemma slow_down_from_short_interval:
  fixes cur :: int
  assumes "cur \<le> 30"
  shows "cur \<le> min (cur + 5) 30 \<and> min (cur + 5) 30 \<le> 30
         \<and> (cur \<le> 25 \<longrightarrow> min (cur + 5) 30 = cur + 5)"
  using assms by simp

section \<open>The token file\<close>

lemma tmp_path_differs: "tmp_path path \<noteq> path"
  by (simp add: tmp_path_def)

lemma stored_file_overwritten:
  "(f :: stored_file)\<lparr>content := c, perms := p\<rparr> = \<lparr>content = c, perms = p\<rparr>"
  by (cases f) simp

lemma stored_file_truncated:
  "(f :: stored_file)\<lparr>content := c\<rparr> = \<lparr>content = c, perms = perms f\<rparr>"
  by (cases f) simp

text \<open>In this file system \<^verbatim>\<open>save_tokens\<close> never raises, and this is what it leaves.\<close>

lemma save_tokens_result:
  "save_tokens json_dumps tokens path w =
     Inr (w\<lparr>files := ((files w)(tmp_path path := None))
            (path \<mapsto> \<lparr>content = json_dumps tokens @ [CHR 0x0A], perms = 384\<rparr>)\<rparr>)"
  by (cases "files w (tmp_path path)")
    (simp_all add: save_tokens_def open_w_def write_to_def os_chmod_def os_replace_def Let_def
      tmp_path_differs stored_file_overwritten)

text \<open>
  The six states, written out. \<open>old\<close> is the mode the temporary file has until the
  \<^verbatim>\<open>chmod\<close>: the one it already had, or the one the umask gives a new file.
\<close>

lemma save_tokens_states_eq:
  "save_tokens_states json_dumps tokens path w =
     (let old = (case files w (tmp_path path) of
                   None \<Rightarrow> 438 AND NOT (umask w) | Some f \<Rightarrow> perms f);
          txt = json_dumps tokens
      in [w,
          w\<lparr>files := (files w)(tmp_path path \<mapsto> \<lparr>content = [], perms = old\<rparr>)\<rparr>,
          w\<lparr>files := (files w)(tmp_path path \<mapsto> \<lparr>content = txt, perms = old\<rparr>)\<rparr>,
          w\<lparr>files := (files w)(tmp_path path \<mapsto> \<lparr>content = txt @ [CHR 0x0A], perms = old\<rparr>)\<rparr>,
          w\<lparr>files := (files w)(tmp_path path \<mapsto> \<lparr>content = txt @ [CHR 0x0A], perms = 384\<rparr>)\<rparr>,
          w\<lparr>files := ((files w)(tmp_path path := None))
                (path \<mapsto> \<lparr>content = txt @ [CHR 0x0A], perms = 384\<rparr>)\<rparr>])"
  by (cases "files w (tmp_path path)")
    (simp_all add: save_tokens_states_def open_w_def write_to_def os_chmod_def os_replace_def
      Let_def tmp_path_differs stored_file_overwritten stored_file_truncated)


text \<open>
  What the target path shows while \<^verbatim>\<open>save_tokens\<close> is at work: in each state either
  what was there before the save or the whole new text with mode 0600 (384). The
  temporary file has that text and that mode before the rename (the fifth state); the
  save ends with the last state, where the temporary file is gone and the target holds
  the new text with no bit set for group or other.
\<close>

lemma save_tokens_target_path:
  "(\<forall>st\<in>set (save_tokens_states json_dumps tokens path w).
      files st path = files w path
      \<or> files st path = Some \<lparr>content = json_dumps tokens @ [CHR 0x0A], perms = 384\<rparr>)
   \<and> files (save_tokens_states json_dumps tokens path w ! 4) (tmp_path path) =
        Some \<lparr>content = json_dumps tokens @ [CHR 0x0A], perms = 384\<rparr>
   \<and> (\<exists>w' f. save_tokens json_dumps tokens path w = Inr w'
         \<and> w' = last (save_tokens_states json_dumps tokens path w)
         \<and> files w' (tmp_path path) = None
         \<and> files w' path = Some f
         \<and> content f = json_dumps tokens @ [CHR 0x0A]
         \<and> perms f = 384 \<and> owner_only (perms f))"
proof -
  have "owner_only (384 :: mode)" by (simp add: owner_only_def)
  then show ?thesis
    by (simp add: save_tokens_result save_tokens_states_eq Let_def tmp_path_differs
        tmp_path_differs [symmetric])
qed

text \<open>
  The temporary file before the \<^verbatim>\<open>chmod\<close> (the fourth state) holds the whole text with
  the mode it was opened with: that of a temporary file left over from before, whatever
  the umask, or else the one the umask gives.
\<close>

lemma temp_file_before_chmod:
  "files (save_tokens_states json_dumps tokens path w ! 3) (tmp_path path) =
     Some \<lparr>content = json_dumps tokens @ [CHR 0x0A],
           perms = (case files w (tmp_path path) of
                      None \<Rightarrow> 438 AND NOT (umask w)
                    | Some f \<Rightarrow> perms f)\<rparr>"
  by (simp add: save_tokens_states_eq Let_def)

section \<open>The rendering of json reads back what it writes\<close>

lemma nibble_cases:
  fixes k :: nat
  assumes "k < 16"
  shows "k = 0 \<or> k = 1 \<or> k = 2 \<or> k = 3 \<or> k = 4 \<or> k = 5 \<or> k = 6 \<or> k = 7 \<or> k = 8
      \<or> k = 9 \<or> k = 10 \<or> k = 11 \<or> k = 12 \<or> k = 13 \<or> k = 14 \<or> k = 15"
proof -
  have "k \<in> set [0..<16]" using assms by simp
  also have "[0..<16] = [0,1,2,3,4,5,6,7,8,9,10,11,12,13,14,15::nat]"
    by (simp add: upt_rec)
  finally show ?thesis by simp
qed

lemma hex_val_hex_digit: "hex_val (hex_digit n) = Some (n mod 16)"
proof -
  define k where "k = n mod 16"
  have "k < 16" by (simp add: k_def)
  then have "k = 0 \<or> k = 1 \<or> k = 2 \<or> k = 3 \<or> k = 4 \<or> k = 5 \<or> k = 6 \<or> k = 7 \<or> k = 8
      \<or> k = 9 \<or> k = 10 \<or> k = 11 \<or> k = 12 \<or> k = 13 \<or> k = 14 \<or> k = 15"
    by (rule nibble_cases)
  then have "hex_val (''0123456789abcdef'' ! k) = Some k"
    by (elim disjE) (simp_all add: hex_val_def is_digit_def digit_val_def)
  then show ?thesis by (simp add: hex_digit_def k_def)
qed

lemma byte_of_nibbles:
  "char_of (16 * ((of_char c :: nat) div 16 mod 16) + (of_char c :: nat) mod 16) = c"
proof -
  define m where "m = (of_char c :: nat)"
  have "m < 256" by (simp add: m_def)
  then have "m div 16 < 16" by (simp add: less_mult_imp_div_less)
  then have "m div 16 mod 16 = m div 16" by simp
  then have "16 * (m div 16 mod 16) + m mod 16 = m" by simp
  then show ?thesis by (simp add: m_def)
qed

lemma parse_chars_plain:
  assumes "c \<noteq> dquote" and "c \<noteq> backslash" and "32 \<le> (of_char c :: nat)"
  shows "parse_chars (c # t) = map_option (\<lambda>(s, r). (c # s, r)) (parse_chars t)"
  using assms by (simp del: parse_chars.simps add: parse_chars.simps(2) [of c t])

lemma parse_chars_short_escape:
  assumes "e \<noteq> CHR ''u''"
    and "(if e = dquote then Some dquote
          else if e = backslash then Some backslash
          else if e = CHR ''/'' then Some CHR ''/''
          else if e = CHR ''n'' then Some newline
          else if e = CHR ''r'' then Some (CHR 0x0D)
          else if e = CHR ''t'' then Some (CHR 0x09)
          else if e = CHR ''b'' then Some (CHR 0x08)
          else if e = CHR ''f'' then Some (CHR 0x0C)
          else None) = Some x"
  shows "parse_chars (backslash # e # t) = map_option (\<lambda>(s, r). (x # s, r)) (parse_chars t)"
proof -
  have "backslash \<noteq> dquote" by (simp add: backslash_def dquote_def)
  then show ?thesis using assms by (simp del: parse_chars.simps add: parse_chars.simps(2) [of backslash])
qed

lemma parse_chars_u_escape:
  "parse_chars (backslash # CHR ''u'' # CHR ''0'' # CHR ''0'' # hex_digit (of_char c div 16)
      # hex_digit (of_char c) # t) = map_option (\<lambda>(s, r). (c # s, r)) (parse_chars t)"
proof -
  have "backslash \<noteq> dquote" by (simp add: backslash_def dquote_def)
  moreover have "hex_val CHR ''0'' = Some 0" by (simp add: hex_val_def is_digit_def digit_val_def)
  ultimately show ?thesis
    by (simp del: parse_chars.simps
        add: parse_chars.simps(2) [of backslash] hex_val_hex_digit byte_of_nibbles)
qed

lemma parse_chars_escape:
  "parse_chars (escape_char c @ t) = map_option (\<lambda>(s, r). (c # s, r)) (parse_chars t)"
proof -
  consider (q) "c = dquote" | (b) "c = backslash" | (n) "c = newline" | (r) "c = CHR 0x0D"
    | (t) "c = CHR 0x09" | (bs) "c = CHR 0x08" | (ff) "c = CHR 0x0C"
    | (plain) "c \<noteq> dquote" "c \<noteq> backslash" "32 \<le> (of_char c :: nat)" "(of_char c :: nat) \<le> 126"
    | (other) "c \<noteq> dquote" "c \<noteq> backslash" "c \<noteq> newline" "c \<noteq> CHR 0x0D" "c \<noteq> CHR 0x09"
        "c \<noteq> CHR 0x08" "c \<noteq> CHR 0x0C" "\<not> (32 \<le> (of_char c :: nat) \<and> (of_char c :: nat) \<le> 126)"
    by blast
  then show ?thesis
  proof cases
    case q
    have "escape_char c = [backslash, dquote]" by (simp add: escape_char_def q)
    moreover have "parse_chars (backslash # dquote # t) =
        map_option (\<lambda>(s, r). (dquote # s, r)) (parse_chars t)"
      by (rule parse_chars_short_escape) (simp_all add: dquote_def)
    ultimately show ?thesis by (simp del: parse_chars.simps add: q)
  next
    case b
    have "escape_char c = [backslash, backslash]"
      by (simp add: escape_char_def b backslash_def dquote_def)
    moreover have "parse_chars (backslash # backslash # t) =
        map_option (\<lambda>(s, r). (backslash # s, r)) (parse_chars t)"
      by (rule parse_chars_short_escape) (simp_all add: dquote_def backslash_def)
    ultimately show ?thesis by (simp del: parse_chars.simps add: b)
  next
    case n
    have "escape_char c = [backslash, CHR ''n'']"
      by (simp add: escape_char_def n backslash_def dquote_def newline_def)
    moreover have "parse_chars (backslash # CHR ''n'' # t) =
        map_option (\<lambda>(s, r). (newline # s, r)) (parse_chars t)"
      by (rule parse_chars_short_escape) (simp_all add: dquote_def backslash_def)
    ultimately show ?thesis by (simp del: parse_chars.simps add: n)
  next
    case r
    have "escape_char c = [backslash, CHR ''r'']"
      by (simp add: escape_char_def r backslash_def dquote_def newline_def)
    moreover have "parse_chars (backslash # CHR ''r'' # t) =
        map_option (\<lambda>(s, r). (CHR 0x0D # s, r)) (parse_chars t)"
      by (rule parse_chars_short_escape) (simp_all add: dquote_def backslash_def)
    ultimately show ?thesis by (simp del: parse_chars.simps add: r)
  next
    case t
    have "escape_char c = [backslash, CHR ''t'']"
      by (simp add: escape_char_def t backslash_def dquote_def newline_def)
    moreover have "parse_chars (backslash # CHR ''t'' # t) =
        map_option (\<lambda>(s, r). (CHR 0x09 # s, r)) (parse_chars t)" for t
      by (rule parse_chars_short_escape) (simp_all add: dquote_def backslash_def)
    ultimately show ?thesis by (simp del: parse_chars.simps add: t)
  next
    case bs
    have "escape_char c = [backslash, CHR ''b'']"
      by (simp add: escape_char_def bs backslash_def dquote_def newline_def)
    moreover have "parse_chars (backslash # CHR ''b'' # t) =
        map_option (\<lambda>(s, r). (CHR 0x08 # s, r)) (parse_chars t)"
      by (rule parse_chars_short_escape) (simp_all add: dquote_def backslash_def)
    ultimately show ?thesis by (simp del: parse_chars.simps add: bs)
  next
    case ff
    have "escape_char c = [backslash, CHR ''f'']"
      by (simp add: escape_char_def ff backslash_def dquote_def newline_def)
    moreover have "parse_chars (backslash # CHR ''f'' # t) =
        map_option (\<lambda>(s, r). (CHR 0x0C # s, r)) (parse_chars t)"
      by (rule parse_chars_short_escape) (simp_all add: dquote_def backslash_def)
    ultimately show ?thesis by (simp del: parse_chars.simps add: ff)
  next
    case plain
    then have "escape_char c = [c]"
      by (auto simp add: escape_char_def newline_def)
    then show ?thesis using plain by (simp del: parse_chars.simps add: parse_chars_plain)
  next
    case other
    then have "escape_char c = [backslash, CHR ''u'', CHR ''0'', CHR ''0'',
        hex_digit (of_char c div 16), hex_digit (of_char c)]"
      by (simp add: escape_char_def)
    then show ?thesis by (simp del: parse_chars.simps add: parse_chars_u_escape)
  qed
qed

lemma parse_chars_quoted:
  "parse_chars (concat (map escape_char s) @ dquote # rest) = Some (s, rest)"
proof (induction s)
  case Nil
  show ?case by simp
next
  case (Cons c s)
  have "parse_chars (concat (map escape_char (c # s)) @ dquote # rest) =
      parse_chars (escape_char c @ (concat (map escape_char s) @ dquote # rest))"
    by simp
  also have "\<dots> = Some (c # s, rest)"
    unfolding parse_chars_escape Cons.IH by simp
  finally show ?case .
qed

lemma digit_cases:
  fixes k :: nat
  assumes "k < 10"
  shows "k = 0 \<or> k = 1 \<or> k = 2 \<or> k = 3 \<or> k = 4 \<or> k = 5 \<or> k = 6 \<or> k = 7 \<or> k = 8 \<or> k = 9"
proof -
  have "k \<in> set [0..<10]" using assms by simp
  also have "[0..<10] = [0,1,2,3,4,5,6,7,8,9::nat]"
    by (simp add: upt_rec)
  finally show ?thesis by simp
qed

lemma hex_digit_decimal:
  assumes "k < 10"
  shows "is_digit (hex_digit k) \<and> digit_val (hex_digit k) = k
         \<and> (hex_digit k = CHR ''0'' \<longrightarrow> k = 0)"
  using digit_cases [OF assms]
  by (elim disjE) (simp_all add: hex_digit_def is_digit_def digit_val_def)

lemma show_nat_unfold:
  "show_nat n = (if n < 10 then [hex_digit n] else show_nat (n div 10) @ [hex_digit (n mod 10)])"
  by (rule show_nat.simps)

declare show_nat.simps [simp del]

lemma show_nat_digits: "c \<in> set (show_nat n) \<Longrightarrow> is_digit c"
proof (induction n arbitrary: c rule: show_nat.induct)
  case (1 n)
  show ?case
  proof (cases "n < 10")
    case True
    with "1.prems" show ?thesis
      by (simp add: show_nat_unfold [of n] hex_digit_decimal)
  next
    case False
    have "n mod 10 < 10" by simp
    then have "is_digit (hex_digit (n mod 10))" by (simp add: hex_digit_decimal)
    with False "1.prems" "1.IH" show ?thesis
      by (auto simp add: show_nat_unfold [of n])
  qed
qed

lemma show_nat_nonempty: "show_nat n \<noteq> []"
  by (simp add: show_nat_unfold [of n])

lemma show_nat_value: "foldl (\<lambda>a c. 10 * a + digit_val c) 0 (show_nat n) = n"
proof (induction n rule: show_nat.induct)
  case (1 n)
  show ?case
  proof (cases "n < 10")
    case True
    then show ?thesis by (simp add: show_nat_unfold [of n] hex_digit_decimal)
  next
    case False
    have "n mod 10 < 10" by simp
    then have "digit_val (hex_digit (n mod 10)) = n mod 10" by (simp add: hex_digit_decimal)
    with False "1.IH" show ?thesis
      by (simp add: show_nat_unfold [of n])
  qed
qed

lemma show_nat_leading: "0 < n \<Longrightarrow> hd (show_nat n) \<noteq> CHR ''0''"
proof (induction n rule: show_nat.induct)
  case (1 n)
  show ?case
  proof (cases "n < 10")
    case True
    with "1.prems" show ?thesis
      using hex_digit_decimal [of n] by (auto simp add: show_nat_unfold [of n])
  next
    case False
    then have "0 < n div 10" by simp
    with False "1.IH" have "hd (show_nat (n div 10)) \<noteq> CHR ''0''" by simp
    with False show ?thesis
      by (simp add: show_nat_unfold [of n] show_nat_nonempty)
  qed
qed

lemma show_nat_length: "1 < length (show_nat n) \<Longrightarrow> 0 < n"
  by (cases "n < 10") (simp_all add: show_nat_unfold [of n])

lemma parse_nat_show_nat:
  assumes "ok_rest rest"
  shows "parse_nat (show_nat n @ rest) = Some (n, rest)"
proof -
  have stop: "takeWhile is_digit rest = []" "dropWhile is_digit rest = rest"
    using assms by (cases rest; simp add: ok_rest_def)+
  have t: "takeWhile is_digit (show_nat n @ rest) = show_nat n"
    using stop show_nat_digits by (simp add: takeWhile_append2)
  have d: "dropWhile is_digit (show_nat n @ rest) = rest"
    using stop show_nat_digits by (simp add: dropWhile_append2)
  have l: "\<not> (1 < length (show_nat n) \<and> hd (show_nat n) = CHR ''0'')"
    using show_nat_leading show_nat_length by blast
  show ?thesis
    unfolding parse_nat_def t d Let_def using l
    by (simp add: show_nat_nonempty show_nat_value)
qed

lemma skip_spaces: "dropWhile is_ws (replicate k CHR '' '' @ s) = dropWhile is_ws s"
  by (induction k) (simp_all add: is_ws_def)

lemma skip_ws_indent: "skip_ws (newline # indent l @ s) = skip_ws s"
  by (simp add: skip_ws_def indent_def skip_spaces) (simp add: is_ws_def)

lemma skip_ws_start: "\<not> is_ws c \<Longrightarrow> skip_ws (c # s) = c # s"
  by (simp add: skip_ws_def)

lemma show_nat_start: "\<exists>c s. show_nat n = c # s \<and> is_digit c"
proof -
  obtain c s where cs: "show_nat n = c # s"
    using show_nat_nonempty by (cases "show_nat n") auto
  then have "c \<in> set (show_nat n)" by simp
  then have "is_digit c" by (rule show_nat_digits)
  with cs show ?thesis by blast
qed

lemma is_digit_value_start: "is_digit c \<Longrightarrow> value_start c"
  by (auto simp add: is_digit_def value_start_def is_ws_def newline_def)

lemma dumps_at_start: "\<exists>c s. dumps_at l v = c # s \<and> value_start c"
proof (cases v)
  case (JInt i)
  obtain c s where "show_nat (nat \<bar>i\<bar>) = c # s" "is_digit c"
    using show_nat_start by blast
  then show ?thesis
    using JInt is_digit_value_start
    by (cases "i < 0")
      (auto simp add: show_int_def value_start_def is_ws_def newline_def abs_if)
qed (auto simp add: value_start_def is_ws_def newline_def quoted_def dquote_def)

lemma is_digit_not_opening:
  "is_digit c \<Longrightarrow> c \<noteq> dquote \<and> c \<noteq> CHR ''['' \<and> c \<noteq> CHR ''{'' \<and> c \<noteq> CHR ''-''"
  by (auto simp add: is_digit_def dquote_def)

lemma parse_value_null: "parse_value (Suc n) (''null'' @ rest) = Some (JNull, rest)"
  by (simp add: dquote_def is_digit_def)

lemma parse_value_true: "parse_value (Suc n) (''true'' @ rest) = Some (JBool True, rest)"
  by (simp add: dquote_def is_digit_def)

lemma parse_value_false: "parse_value (Suc n) (''false'' @ rest) = Some (JBool False, rest)"
  by (simp add: dquote_def is_digit_def)

lemma parse_value_str: "parse_value (Suc n) (quoted s @ rest) = Some (JStr s, rest)"
  by (simp add: quoted_def parse_chars_quoted del: parse_chars.simps)

lemma parse_value_int:
  assumes "ok_rest rest"
  shows "parse_value (Suc n) (show_int i @ rest) = Some (JInt i, rest)"
proof (cases "i < 0")
  case True
  then show ?thesis
    using parse_nat_show_nat [OF assms, of "nat (- i)"]
    by (simp add: show_int_def dquote_def)
next
  case False
  obtain c s where cs: "show_nat (nat i) = c # s" and d: "is_digit c"
    using show_nat_start by blast
  have "parse_nat ((c # s) @ rest) = Some (nat i, rest)"
    using parse_nat_show_nat [OF assms, of "nat i"] cs by simp
  then show ?thesis
    using False d is_digit_not_opening [OF d]
    by (simp add: show_int_def cs)
qed

lemma fold_update_fresh:
  "distinct (map fst kv) \<Longrightarrow> fst ` set kv \<inter> fst ` set acc = {} \<Longrightarrow>
     fold (\<lambda>(k, v). AList.update k v) kv acc = acc @ kv"
proof (induction kv arbitrary: acc)
  case Nil
  show ?case by simp
next
  case (Cons p kv)
  obtain k v where p: "p = (k, v)" by (cases p)
  have fresh: "k \<notin> fst ` set acc" using Cons.prems(2) p by auto
  have upd: "AList.update k v acc = acc @ [(k, v)]"
    using fresh by (induction acc) auto
  have "fold (\<lambda>(k, v). AList.update k v) kv (acc @ [(k, v)]) = (acc @ [(k, v)]) @ kv"
  proof (rule Cons.IH)
    show "distinct (map fst kv)" using Cons.prems(1) by simp
    show "fst ` set kv \<inter> fst ` set (acc @ [(k, v)]) = {}"
      using Cons.prems p by auto
  qed
  then show ?case by (simp add: p upd)
qed

lemma skip_ws_value: "skip_ws (dumps_at l v @ t) = dumps_at l v @ t"
proof -
  obtain c s where "dumps_at l v = c # s" "value_start c"
    using dumps_at_start by blast
  then show ?thesis by (simp add: skip_ws_start value_start_def)
qed

lemma skip_ws_items:
  "skip_ws (dumps_items l (x # xs) @ t) =
     dumps_at l x @ (if xs = [] then [] else '','') @ dumps_items l xs @ t"
proof -
  have "dumps_items l (x # xs) @ t =
      newline # indent l @ (dumps_at l x @ (if xs = [] then [] else '','') @ dumps_items l xs @ t)"
    by simp
  then show ?thesis by (simp only: skip_ws_indent skip_ws_value)
qed

lemma skip_ws_members:
  "skip_ws (dumps_members l (m # ms) @ t) =
     quoted (fst m) @ '': '' @ dumps_at l (snd m) @ (if ms = [] then [] else '','')
       @ dumps_members l ms @ t"
proof -
  have "dumps_members l (m # ms) @ t =
      newline # indent l @ (quoted (fst m) @ '': '' @ dumps_at l (snd m)
        @ (if ms = [] then [] else '','') @ dumps_members l ms @ t)"
    by simp
  moreover have "skip_ws (quoted k @ u) = quoted k @ u" for k u
    by (simp add: quoted_def skip_ws_start is_ws_def dquote_def newline_def)
  ultimately show ?thesis by (simp only: skip_ws_indent)
qed

declare parse_value.simps [simp del]

lemma parse_value_array:
  assumes "skip_ws cs = c # r" and "c \<noteq> CHR '']''"
  shows "parse_value (Suc n) (CHR ''['' # cs) =
           map_option (\<lambda>(xs, r'). (JArr xs, r')) (parse_items n (skip_ws cs))"
  using assms by (simp add: parse_value.simps(2) dquote_def)

lemma parse_value_object:
  assumes "skip_ws cs = c # r" and "c \<noteq> CHR ''}''"
  shows "parse_value (Suc n) (CHR ''{'' # cs) =
           map_option (\<lambda>(kv, r'). (JObj (fold (\<lambda>(k, v). AList.update k v) kv []), r'))
             (parse_members n (skip_ws cs))"
  using assms by (simp add: parse_value.simps(2) dquote_def)

lemma parse_value_empty_array: "parse_value (Suc n) (''[]'' @ rest) = Some (JArr [], rest)"
  by (simp add: parse_value.simps(2) dquote_def skip_ws_start is_ws_def newline_def)

lemma parse_value_empty_object: "parse_value (Suc n) (''{}'' @ rest) = Some (JObj [], rest)"
  by (simp add: parse_value.simps(2) dquote_def skip_ws_start is_ws_def newline_def)

lemma ok_rest_simps:
  "ok_rest (newline # t)" "ok_rest (CHR '','' # t)" "ok_rest []"
  by (simp_all add: ok_rest_def is_digit_def newline_def)

lemma parse_items_step:
  assumes "parse_value n (dumps_at l x @ t) = Some (x, t)"
  shows "parse_items (Suc n) (dumps_at l x @ t) =
           (case skip_ws t of
              [] \<Rightarrow> None
            | c # r' \<Rightarrow>
                if c = CHR '']'' then Some ([x], r')
                else if c = CHR '','' then
                  map_option (\<lambda>(xs, r''). (x # xs, r'')) (parse_items n (skip_ws r'))
                else None)"
  using assms by simp

lemma parse_members_step:
  assumes "parse_value n (dumps_at l v @ t) = Some (v, t)"
  shows "parse_members (Suc n) (quoted k @ '': '' @ dumps_at l v @ t) =
           (case skip_ws t of
              [] \<Rightarrow> None
            | c3 # r3 \<Rightarrow>
                if c3 = CHR ''}'' then Some ([(k, v)], r3)
                else if c3 = CHR '','' then
                  map_option (\<lambda>(kv, r4). ((k, v) # kv, r4)) (parse_members n (skip_ws r3))
                else None)"
proof -
  have q: "quoted k @ '': '' @ dumps_at l v @ t =
      dquote # (concat (map escape_char k) @ dquote # ('': '' @ dumps_at l v @ t))"
    by (simp add: quoted_def)
  have c: "skip_ws (CHR '':'' # CHR '' '' # dumps_at l v @ t) =
      CHR '':'' # (CHR '' '' # dumps_at l v @ t)"
    by (simp add: skip_ws_start is_ws_def newline_def)
  have v: "skip_ws (CHR '' '' # dumps_at l v @ t) = dumps_at l v @ t"
    using skip_ws_value [of l v t] by (simp add: skip_ws_def is_ws_def)
  show ?thesis
    unfolding q
    by (simp del: parse_chars.simps add: parse_chars_quoted c v assms)
qed

lemma skip_ws_closing:
  "skip_ws (newline # indent l @ CHR '']'' # t) = CHR '']'' # t"
  "skip_ws (newline # indent l @ CHR ''}'' # t) = CHR ''}'' # t"
  unfolding skip_ws_indent by (simp_all add: skip_ws_start is_ws_def newline_def)

lemma parse_dumps:
  shows parse_dumps_value:
    "wf_json v \<Longrightarrow> nodes v \<le> n \<Longrightarrow> ok_rest rest \<Longrightarrow>
       parse_value n (dumps_at l v @ rest) = Some (v, rest)"
  and parse_dumps_items:
    "xs \<noteq> [] \<Longrightarrow> wf_items xs \<Longrightarrow> nodes_items xs \<le> n \<Longrightarrow>
       parse_items n (skip_ws (dumps_items l xs @ newline # indent l' @ CHR '']'' # rest)) =
         Some (xs, rest)"
  and parse_dumps_members:
    "kv \<noteq> [] \<Longrightarrow> wf_members kv \<Longrightarrow> nodes_members kv \<le> n \<Longrightarrow>
       parse_members n (skip_ws (dumps_members l kv @ newline # indent l' @ CHR ''}'' # rest)) =
         Some (kv, rest)"
proof (induction l v and l xs and l kv arbitrary: n rest and n rest l' and n rest l'
    rule: dumps_at_dumps_items_dumps_members.induct)
  case (1 lvl)
  then obtain m where "n = Suc m" by (cases n) auto
  then show ?case using parse_value_null [of m rest] by simp
next
  case (2 lvl b)
  then obtain m where "n = Suc m" by (cases n) auto
  then show ?case
    using parse_value_true [of m rest] parse_value_false [of m rest] by (cases b) simp_all
next
  case (3 lvl i)
  then obtain m where "n = Suc m" by (cases n) auto
  with 3 show ?case using parse_value_int [of rest m i] by simp
next
  case (4 lvl s)
  then obtain m where "n = Suc m" by (cases n) auto
  then show ?case using parse_value_str [of m s rest] by simp
next
  case (5 lvl xs)
  from "5.prems" obtain m where n: "n = Suc m" and m: "nodes_items xs \<le> m"
    by (cases n) auto
  show ?case
  proof (cases "xs = []")
    case True
    then show ?thesis using parse_value_empty_array [of m rest] by (simp add: n)
  next
    case False
    then obtain x xs' where xs: "xs = x # xs'" by (cases xs) auto
    define cs where "cs = dumps_items (Suc lvl) xs @ newline # indent lvl @ CHR '']'' # rest"
    obtain c s where st: "dumps_at (Suc lvl) x = c # s" "value_start c"
      using dumps_at_start by blast
    have sk: "skip_ws cs = c # (s @ (if xs' = [] then [] else '','') @ dumps_items (Suc lvl) xs'
        @ newline # indent lvl @ CHR '']'' # rest)"
      unfolding cs_def xs skip_ws_items st by simp
    have "c \<noteq> CHR '']''" using st(2) by (simp add: value_start_def)
    with sk have "parse_value (Suc m) (CHR ''['' # cs) =
        map_option (\<lambda>(xs, r'). (JArr xs, r')) (parse_items m (skip_ws cs))"
      by (rule parse_value_array)
    moreover have "parse_items m (skip_ws cs) = Some (xs, rest)"
      unfolding cs_def using False "5.prems"(1) m by (intro "5.IH") simp_all
    moreover have "dumps_at lvl (JArr xs) @ rest = CHR ''['' # cs"
      using False by (simp add: cs_def)
    ultimately show ?thesis by (simp add: n)
  qed
next
  case (6 lvl kv)
  from "6.prems" obtain m where n: "n = Suc m" and m: "nodes_members kv \<le> m"
    by (cases n) auto
  show ?case
  proof (cases "kv = []")
    case True
    then show ?thesis using parse_value_empty_object [of m rest] by (simp add: n)
  next
    case False
    then obtain p kv' where kv: "kv = p # kv'" by (cases kv) auto
    define cs where "cs = dumps_members (Suc lvl) kv @ newline # indent lvl @ CHR ''}'' # rest"
    have sk: "skip_ws cs = dquote # (concat (map escape_char (fst p)) @ [dquote] @ '': ''
        @ dumps_at (Suc lvl) (snd p) @ (if kv' = [] then [] else '','')
        @ dumps_members (Suc lvl) kv' @ newline # indent lvl @ CHR ''}'' # rest)"
      unfolding cs_def kv skip_ws_members by (simp add: quoted_def)
    have "dquote \<noteq> CHR ''}''" by (simp add: dquote_def)
    with sk have "parse_value (Suc m) (CHR ''{'' # cs) =
        map_option (\<lambda>(kv, r'). (JObj (fold (\<lambda>(k, v). AList.update k v) kv []), r'))
          (parse_members m (skip_ws cs))"
      by (rule parse_value_object)
    moreover have "parse_members m (skip_ws cs) = Some (kv, rest)"
      unfolding cs_def using False "6.prems"(1) m by (intro "6.IH") simp_all
    moreover have "fold (\<lambda>(k, v). AList.update k v) kv [] = [] @ kv"
      using "6.prems"(1) by (intro fold_update_fresh) simp_all
    moreover have "dumps_at lvl (JObj kv) @ rest = CHR ''{'' # cs"
      using False by (simp add: cs_def)
    ultimately show ?thesis by (simp add: n)
  qed
next
  case (7 lvl)
  then show ?case by simp
next
  case (8 lvl x xs)
  from "8.prems" obtain m where n: "n = Suc m" and mx: "nodes x \<le> m"
    and ms: "nodes_items xs \<le> m"
    by (cases n) auto
  define t where "t = (if xs = [] then [] else '','') @ dumps_items lvl xs
      @ newline # indent l' @ CHR '']'' # rest"
  have sk: "skip_ws (dumps_items lvl (x # xs) @ newline # indent l' @ CHR '']'' # rest) =
      dumps_at lvl x @ t"
    unfolding t_def skip_ws_items by simp
  have okt: "ok_rest t"
    by (cases xs) (simp_all add: t_def ok_rest_simps)
  have px: "parse_value m (dumps_at lvl x @ t) = Some (x, t)"
    using "8.prems"(2) mx okt by (intro "8.IH"(1)) simp_all
  show ?case
  proof (cases "xs = []")
    case True
    then have "skip_ws t = CHR '']'' # rest"
      by (simp add: t_def skip_ws_closing)
    then show ?thesis
      unfolding sk n parse_items_step [OF px] using True by simp
  next
    case False
    then have st: "skip_ws t = CHR '','' # (dumps_items lvl xs
        @ newline # indent l' @ CHR '']'' # rest)"
      by (simp add: t_def skip_ws_start is_ws_def newline_def)
    have "parse_items m (skip_ws (dumps_items lvl xs
        @ newline # indent l' @ CHR '']'' # rest)) = Some (xs, rest)"
      using False "8.prems"(2) ms by (intro "8.IH"(2)) simp_all
    then show ?thesis
      unfolding sk n parse_items_step [OF px] st by simp
  qed
next
  case (9 lvl)
  then show ?case by simp
next
  case (10 lvl p kv)
  from "10.prems" obtain m where n: "n = Suc m" and mx: "nodes (snd p) \<le> m"
    and ms: "nodes_members kv \<le> m"
    by (cases n) auto
  define t where "t = (if kv = [] then [] else '','') @ dumps_members lvl kv
      @ newline # indent l' @ CHR ''}'' # rest"
  have sk: "skip_ws (dumps_members lvl (p # kv) @ newline # indent l' @ CHR ''}'' # rest) =
      quoted (fst p) @ '': '' @ dumps_at lvl (snd p) @ t"
    unfolding t_def skip_ws_members by simp
  have okt: "ok_rest t"
    by (cases kv) (simp_all add: t_def ok_rest_simps)
  have px: "parse_value m (dumps_at lvl (snd p) @ t) = Some (snd p, t)"
    using "10.prems"(2) mx okt by (intro "10.IH"(1)) simp_all
  show ?case
  proof (cases "kv = []")
    case True
    then have "skip_ws t = CHR ''}'' # rest"
      by (simp add: t_def skip_ws_closing)
    then show ?thesis
      unfolding sk n parse_members_step [OF px] using True by simp
  next
    case False
    then have st: "skip_ws t = CHR '','' # (dumps_members lvl kv
        @ newline # indent l' @ CHR ''}'' # rest)"
      by (simp add: t_def skip_ws_start is_ws_def newline_def)
    have "parse_members m (skip_ws (dumps_members lvl kv
        @ newline # indent l' @ CHR ''}'' # rest)) = Some (kv, rest)"
      using False "10.prems"(2) ms by (intro "10.IH"(2)) simp_all
    then show ?thesis
      unfolding sk n parse_members_step [OF px] st by simp
  qed
qed




section \<open>The claims\<close>

text \<open>
  C1. On \<^verbatim>\<open>slow_down\<close> the interval is to grow by 5 up to 30 and never to shrink, also
  when the server suggested more than 30 at the start. The code takes
  \<^verbatim>\<open>min(current_interval + 5, 30)\<close>: started with a suggested interval of 60, the loop
  sleeps 60 seconds after \<^verbatim>\<open>authorization_pending\<close> and then, told to slow down, only
  30 seconds. The events are listed latest first.
\<close>

theorem slow_down_lowers_long_interval:
  "events (snd (poll_token_endpoint (JStr ''d1'') ''oidc-agent'' None 60 900 0
      [error_answer 400 ''authorization_pending'' 0, error_answer 400 ''slow_down'' 0]
      quiet_world)) =
   [Slept 30, Posted (token_request (JStr ''d1'') ''oidc-agent'' None) 0,
    Slept 60, Posted (token_request (JStr ''d1'') ''oidc-agent'' None) 0]"
  by (simp add: poll_token_endpoint_def error_answer_def quiet_world_def elapse_def dict_get_def
      requests_post_def time_sleep_def Let_def)

text \<open>
  C2. The loop starts with the interval \<^verbatim>\<open>max(5, interval)\<close>, and \<^verbatim>\<open>run_device_flow\<close>
  polls with the interval the device authorization response suggests, 5 when it has no
  \<^verbatim>\<open>interval\<close>, and with the timeout 900, whatever else that response holds (its
  \<^verbatim>\<open>expires_in\<close> is not read). The default of 300 that \<^verbatim>\<open>poll_token_endpoint\<close> has for
  its timeout is never used: the one call of the function passes 900.
\<close>

theorem device_flow_poll_start:
  assumes "start_device_flow client_id scope audience s w = (Inr (JObj kv), w1)"
    and "map_of kv ''device_code'' = Some device_code"
    and "map_of kv ''interval'' = map_option JInt suggested"
  shows "poll_token_endpoint dc cid aud interval timeout_seconds lag0 ss0 w0 =
           poll_loop (token_request dc cid aud) timeout_seconds (now w0) (max 5 interval) ss0
             (elapse lag0 w0)
         \<and> run_device_flow client_id scope audience s lag ss w =
           summarised
             (poll_loop (token_request device_code client_id audience) 900 (now w1)
                (case suggested of None \<Rightarrow> 5 | Some n \<Rightarrow> max 5 n) ss (elapse lag w1))"
proof -
  have p: "\<And>dc cid aud interval T lag ss w.
      poll_token_endpoint dc cid aud interval T lag ss w =
        poll_loop (token_request dc cid aud) T (now w) (max 5 interval) ss (elapse lag w)"
    by (simp add: poll_token_endpoint_def Let_def)
  show ?thesis
    using assms by (cases suggested) (simp_all add: run_device_flow_def p)
qed

theorem device_flow_poll_start_witness:
  "run_device_flow ''oidc-agent'' ''openid'' None
     (json_answer 200 (JObj [(''device_code'', JStr ''d1''), (''interval'', JInt 2),
        (''expires_in'', JInt 60)]))
     0 [json_answer 200 sample_tokens] quiet_world =
   summarised
     (poll_loop (token_request (JStr ''d1'') ''oidc-agent'' None) 900 0 5
        [json_answer 200 sample_tokens]
        (requests_post (device_request ''oidc-agent'' ''openid'' None)
           (json_answer 200 (JObj [(''device_code'', JStr ''d1''), (''interval'', JInt 2),
              (''expires_in'', JInt 60)])) quiet_world))"
  using device_flow_poll_start [of "''oidc-agent''" "''openid''" None
      "json_answer 200 (JObj [(''device_code'', JStr ''d1''), (''interval'', JInt 2),
        (''expires_in'', JInt 60)])" quiet_world
      "[(''device_code'', JStr ''d1''), (''interval'', JInt 2), (''expires_in'', JInt 60)]"
      "requests_post (device_request ''oidc-agent'' ''openid'' None)
           (json_answer 200 (JObj [(''device_code'', JStr ''d1''), (''interval'', JInt 2),
              (''expires_in'', JInt 60)])) quiet_world"
      "JStr ''d1''" "Some 2" JNull "[]" None 0 0 0 "[]" quiet_world 0
      "[json_answer 200 sample_tokens]"]
  by (simp add: start_device_flow_def json_answer_def raises_for_status_def resp_json_def
      requests_post_def quiet_world_def elapse_def Let_def)

text \<open>
  C3, as amended. Let every answer of the script keep the loop polling, let no HTTP call
  take negative time, let the first check come no later than \<open>T\<close> after the start, and let
  the sleeps that the script asks for sum past \<open>T\<close>. Then \<^verbatim>\<open>poll_token_endpoint\<close> raises
  the timeout error; the last things it did were a POST that took \<open>d\<close> seconds and a sleep
  of \<open>n\<close> seconds, and the time elapsed since the start exceeds \<open>T\<close> by at most \<open>d + n\<close>.
\<close>

theorem poll_timeout_overshoot:
  assumes "\<forall>s\<in>set ss. keeps_polling s"
    and "\<forall>s\<in>set ss. 0 \<le> took s"
    and "0 \<le> lag" and "lag \<le> of_int T"
    and "T < sleep_total (max 5 (if i = 0 then 5 else i)) ss"
  shows "\<exists>w' n d evs.
           poll_token_endpoint dc cid aud i T lag ss w = (Some (Inl PollTimeout), w')
           \<and> events w' = Slept n # Posted (token_request dc cid aud) d # evs
           \<and> d \<in> took ` set ss
           \<and> now w' - now w - of_int T \<le> d + of_int n"
proof -
  have "0 \<le> call_total ss" using assms(2) by (rule call_total_nonneg)
  moreover have "rat_of_int T < of_int (sleep_total (max 5 (if i = 0 then 5 else i)) ss)"
    using assms(5) by simp
  ultimately have lt: "of_int T < now (elapse lag w) - now w + call_total ss
      + of_int (sleep_total (max 5 (if i = 0 then 5 else i)) ss)"
    using assms(3) by (simp add: elapse_def)
  have le: "now (elapse lag w) - now w \<le> of_int T"
    using assms(4) by (simp add: elapse_def)
  show ?thesis
    unfolding poll_token_endpoint_def Let_def
    using assms(1) le lt by (rule poll_loop_times_out)
qed

theorem poll_timeout_overshoot_witness:
  "\<exists>w' n d evs.
     poll_token_endpoint (JStr ''d1'') ''oidc-agent'' None 5 10 0
       [error_answer 400 ''slow_down'' 1, error_answer 400 ''authorization_pending'' 2]
       quiet_world = (Some (Inl PollTimeout), w')
     \<and> events w' = Slept n # Posted (token_request (JStr ''d1'') ''oidc-agent'' None) d # evs
     \<and> d \<in> took ` set [error_answer 400 ''slow_down'' 1,
                         error_answer 400 ''authorization_pending'' 2]
     \<and> now w' - now quiet_world - of_int 10 \<le> d + of_int n"
  by (rule poll_timeout_overshoot)
    (simp_all add: keeps_polling_def slows_down_def error_answer_def dict_get_def)

text \<open>
  C3 as stated fails when an HTTP call takes time. Timeout 10, interval 5, three
  \<^verbatim>\<open>authorization_pending\<close> answers whose sleeps sum to 15, the third call taking 20
  seconds: the check at 10 seconds is passed (10 is not greater than 10), the timeout is
  raised at 35 seconds, 25 past the timeout, and every interval slept was 5.
\<close>

theorem overshoot_with_slow_call:
  "fst (poll_token_endpoint (JStr ''d1'') ''oidc-agent'' None 5 10 0
      [error_answer 400 ''authorization_pending'' 0, error_answer 400 ''authorization_pending'' 0,
       error_answer 400 ''authorization_pending'' 20] quiet_world) = Some (Inl PollTimeout)
   \<and> now (snd (poll_token_endpoint (JStr ''d1'') ''oidc-agent'' None 5 10 0
      [error_answer 400 ''authorization_pending'' 0, error_answer 400 ''authorization_pending'' 0,
       error_answer 400 ''authorization_pending'' 20] quiet_world)) - now quiet_world = 35
   \<and> events (snd (poll_token_endpoint (JStr ''d1'') ''oidc-agent'' None 5 10 0
      [error_answer 400 ''authorization_pending'' 0, error_answer 400 ''authorization_pending'' 0,
       error_answer 400 ''authorization_pending'' 20] quiet_world)) =
     [Slept 5, Posted (token_request (JStr ''d1'') ''oidc-agent'' None) 20,
      Slept 5, Posted (token_request (JStr ''d1'') ''oidc-agent'' None) 0,
      Slept 5, Posted (token_request (JStr ''d1'') ''oidc-agent'' None) 0]
   \<and> sleep_total 5 [error_answer 400 ''authorization_pending'' 0,
        error_answer 400 ''authorization_pending'' 0,
        error_answer 400 ''authorization_pending'' 20] = 15"
  by (simp add: poll_token_endpoint_def error_answer_def quiet_world_def elapse_def dict_get_def
      requests_post_def time_sleep_def Let_def slows_down_def)

text \<open>
  C4. In an iteration that polls, an answer with a status other than 200 whose JSON object
  has \<^verbatim>\<open>error\<close> equal to \<^verbatim>\<open>access_denied\<close>, \<^verbatim>\<open>expired_token\<close> or \<^verbatim>\<open>invalid_grant\<close> ends
  the loop with the error that carries this code and the body. The world is left as it
  was right after this one POST: nothing of the rest of the script is asked for, and
  there is no sleep.
\<close>

theorem terminal_error_rejects:
  assumes "now w - began \<le> of_int T"
    and "outcome s = PostReturned resp"
    and "status_code resp \<noteq> 200"
    and "json_body resp = Some (JObj kv)"
    and "dict_get kv ''error'' = JStr e"
    and "e = ''access_denied'' \<or> e = ''expired_token'' \<or> e = ''invalid_grant''"
  shows "poll_loop rq T began cur (s # ss) w =
           (Some (Inl (DeviceFlowFailed (JStr e) (JObj kv))), requests_post rq s w)"
  using assms by (auto simp add: Let_def)

theorem terminal_error_rejects_witness:
  "poll_loop (token_request (JStr ''d1'') ''oidc-agent'' None) 900 0 5
     [error_answer 400 ''expired_token'' 0, json_answer 200 sample_tokens] quiet_world =
   (Some (Inl (DeviceFlowFailed (JStr ''expired_token'')
                 (JObj [(''error'', JStr ''expired_token'')]))),
    \<lparr>now = 0, events = [Posted (token_request (JStr ''d1'') ''oidc-agent'' None) 0],
     files = Map.empty, umask = 18\<rparr>)"
  using terminal_error_rejects [of quiet_world 0 900 "error_answer 400 ''expired_token'' 0"
      "\<lparr>status_code = 400, json_body = Some (JObj [(''error'', JStr ''expired_token'')]),
        body_text = []\<rparr>" "[(''error'', JStr ''expired_token'')]" "''expired_token''"
      "token_request (JStr ''d1'') ''oidc-agent'' None" 5 "[json_answer 200 sample_tokens]"]
  by (simp add: error_answer_def quiet_world_def dict_get_def requests_post_def)

text \<open>
  C5. No reader is to see the tokens in a file that everyone may read at any point of
  the save. The code restricts the temporary file only after it has written it: with the
  usual umask 022 (18) and no temporary file left from before, \<^verbatim>\<open>tokens_egi.json.tmp\<close>
  is there with mode 0644 (420), which lets everyone read it, empty after the \<^verbatim>\<open>open\<close>
  (second state) and with the whole token text before the \<^verbatim>\<open>chmod\<close> (fourth state).
\<close>

theorem temp_file_exposed:
  "files (save_tokens_states py_json_dumps sample_tokens ''tokens_egi.json'' quiet_world ! 3)
       ''tokens_egi.json.tmp'' =
     Some \<lparr>content = py_json_dumps sample_tokens @ [CHR 0x0A], perms = 420\<rparr>
   \<and> world_readable 420
   \<and> files (save_tokens_states py_json_dumps sample_tokens ''tokens_egi.json'' quiet_world ! 1)
       ''tokens_egi.json.tmp'' = Some \<lparr>content = [], perms = 420\<rparr>"
  by (simp add: save_tokens_states_eq Let_def tmp_path_def quiet_world_def world_readable_def)




text \<open>
  C7. When the refresh request is answered with a status other than 200,
  \<^verbatim>\<open>refresh_with_rt\<close> raises the error that carries the status and the body (the parsed
  JSON, or the text when it is not JSON) after its single POST. The refresh action then
  ends with a non-zero exit status, has printed nothing to standard output, has issued at
  most that one POST and leaves every file as it was; when the refresh token came with
  \<^verbatim>\<open>--token\<close> it exits with status 1 and prints that error.
\<close>

theorem refresh_failure_writes_nothing:
  assumes "outcome s = PostReturned resp"
    and "status_code resp \<noteq> 200"
  shows "refresh_with_rt rt client_id audience s w =
           (Inl (RefreshFailed (status_code resp)
                  (case json_body resp of Some j \<Rightarrow> Inl j | None \<Rightarrow> Inr (body_text resp))),
            requests_post (refresh_request rt client_id audience) s w)
         \<and> (\<exists>res w'. cli_refresh json_loads json_dumps token client_id audience file s w =
                        Some (res, w')
               \<and> exit_code res \<noteq> 0 \<and> stdout res = []
               \<and> files w' = files w
               \<and> (events w' = events w \<or> (\<exists>rq. events w' = Posted rq (took s) # events w)))
         \<and> (given token \<longrightarrow>
               cli_refresh json_loads json_dumps token client_id audience file s w =
                 Some (\<lparr>exit_code = 1, stdout = [],
                        stderr = [ErrorLine (RefreshFailed (status_code resp)
                          (case json_body resp of Some j \<Rightarrow> Inl j
                           | None \<Rightarrow> Inr (body_text resp)))]\<rparr>,
                       requests_post (refresh_request (JStr (the token)) client_id audience) s w))"
proof -
  have r: "\<And>rt. refresh_with_rt rt client_id audience s w =
           (Inl (RefreshFailed (status_code resp)
                  (case json_body resp of Some j \<Rightarrow> Inl j | None \<Rightarrow> Inr (body_text resp))),
            requests_post (refresh_request rt client_id audience) s w)"
    using assms by (simp add: refresh_with_rt_def Let_def)
  have f: "\<And>rq. files (requests_post rq s w) = files w"
    by (simp add: requests_post_def)
  have e: "\<And>rq. events (requests_post rq s w) = Posted rq (took s) # events w"
    by (simp add: requests_post_def)
  show ?thesis
    by (simp add: r f e cli_refresh_def failed_def Let_def
        split: sum.splits json.splits)
qed

theorem refresh_failure_writes_nothing_witness:
  "cli_refresh py_json_loads py_json_dumps (Some ''bad-token'') ''oidc-agent'' None
     ''tokens_egi.json'' (json_answer 400 (JObj [(''error'', JStr ''invalid_grant'')]))
     quiet_world =
   Some (\<lparr>exit_code = 1, stdout = [],
          stderr = [ErrorLine (RefreshFailed 400
            (Inl (JObj [(''error'', JStr ''invalid_grant'')])))]\<rparr>,
         requests_post (refresh_request (JStr ''bad-token'') ''oidc-agent'' None)
           (json_answer 400 (JObj [(''error'', JStr ''invalid_grant'')])) quiet_world)"
  using refresh_failure_writes_nothing [of
      "json_answer 400 (JObj [(''error'', JStr ''invalid_grant'')])"
      "\<lparr>status_code = 400, json_body = Some (JObj [(''error'', JStr ''invalid_grant'')]),
        body_text = []\<rparr>" JNull "''oidc-agent''" None quiet_world
      py_json_loads py_json_dumps "Some ''bad-token''" "''tokens_egi.json''"]
  by (simp add: json_answer_def)

text \<open>
  C8. \<^verbatim>\<open>revoke_token\<close> issues one POST and hands back the response. The revoke action,
  given both tokens, reports success and exits with status 0 exactly when the status of
  that response is 200; otherwise it prints the failure with the status and the body text
  to standard error and exits with status 1. Either way the world is left as it was right
  after the one POST.
\<close>

theorem revoke_reports_status:
  assumes "given token" and "given access_token"
    and "outcome s = PostReturned resp"
  shows "revoke_token (the token) (the access_token) client_id s w =
           (Inr resp, requests_post (revoke_request (the token) (the access_token) client_id) s w)
         \<and> cli_revoke token access_token client_id s w =
           (if status_code resp = 200
            then \<lparr>exit_code = 0, stdout = [RevokedOk], stderr = []\<rparr>
            else \<lparr>exit_code = 1, stdout = [],
                  stderr = [RevokeFailed (status_code resp) (body_text resp)]\<rparr>,
            requests_post (revoke_request (the token) (the access_token) client_id) s w)"
  using assms by (simp add: cli_revoke_def revoke_token_def Let_def)

theorem revoke_reports_status_witness:
  "cli_revoke (Some ''r1'') (Some ''a1'') ''oidc-agent'' (text_answer 400 ''nope'') quiet_world =
     (\<lparr>exit_code = 1, stdout = [], stderr = [RevokeFailed 400 ''nope'']\<rparr>,
      requests_post (revoke_request ''r1'' ''a1'' ''oidc-agent'') (text_answer 400 ''nope'')
        quiet_world)
   \<and> cli_revoke (Some ''r1'') (Some ''a1'') ''oidc-agent'' (text_answer 200 []) quiet_world =
     (\<lparr>exit_code = 0, stdout = [RevokedOk], stderr = []\<rparr>,
      requests_post (revoke_request ''r1'' ''a1'' ''oidc-agent'') (text_answer 200 [])
        quiet_world)"
  using revoke_reports_status [of "Some ''r1''" "Some ''a1''" "text_answer 400 ''nope''"
        "\<lparr>status_code = 400, json_body = None, body_text = ''nope''\<rparr>" "''oidc-agent''"
        quiet_world]
    revoke_reports_status [of "Some ''r1''" "Some ''a1''" "text_answer 200 []"
        "\<lparr>status_code = 200, json_body = None, body_text = []\<rparr>" "''oidc-agent''" quiet_world]
  by (simp add: text_answer_def)

text \<open>
  C9. In an iteration that polls, an answer with a status other than 200 whose JSON object
  has \<^verbatim>\<open>error\<close> equal to \<^verbatim>\<open>authorization_pending\<close> makes the loop sleep for the current
  interval and go on to the next iteration with the same interval.
\<close>

theorem pending_keeps_interval:
  assumes "now w - began \<le> of_int T"
    and "outcome s = PostReturned resp"
    and "status_code resp \<noteq> 200"
    and "json_body resp = Some (JObj kv)"
    and "dict_get kv ''error'' = JStr ''authorization_pending''"
  shows "poll_loop rq T began cur (s # ss) w =
           poll_loop rq T began cur ss (time_sleep cur (requests_post rq s w))"
  using assms by (simp add: Let_def)

theorem pending_keeps_interval_witness:
  "poll_loop (token_request (JStr ''d1'') ''oidc-agent'' None) 900 0 7
     [error_answer 400 ''authorization_pending'' 0] quiet_world =
   (None, \<lparr>now = 7,
           events = [Slept 7, Posted (token_request (JStr ''d1'') ''oidc-agent'' None) 0],
           files = Map.empty, umask = 18\<rparr>)"
  using pending_keeps_interval [of quiet_world 0 900
      "error_answer 400 ''authorization_pending'' 0"
      "\<lparr>status_code = 400, json_body = Some (JObj [(''error'', JStr ''authorization_pending'')]),
        body_text = []\<rparr>" "[(''error'', JStr ''authorization_pending'')]"
      "token_request (JStr ''d1'') ''oidc-agent'' None" 7 "[]"]
  by (simp add: error_answer_def quiet_world_def dict_get_def time_sleep_def requests_post_def)

text \<open>
  C10, as amended. When the time that passes between the reading at loop entry and the
  first check is no more than the timeout (with no time passing there, any timeout from 0
  on), a run of \<^verbatim>\<open>poll_token_endpoint\<close> that raises the timeout error has issued a POST
  to the token endpoint before.
\<close>

theorem first_poll_before_timeout:
  assumes "lag \<le> of_int T"
    and "fst (poll_token_endpoint dc cid aud i T lag ss w) = Some (Inl PollTimeout)"
  shows "\<exists>evs d. events (snd (poll_token_endpoint dc cid aud i T lag ss w)) =
           evs @ Posted (token_request dc cid aud) d # events w"
proof (cases ss)
  case Nil
  with assms show ?thesis by (simp add: poll_token_endpoint_def elapse_def)
next
  case (Cons s ss')
  have "now (elapse lag w) - now w \<le> of_int T" using assms(1) by (simp add: elapse_def)
  from poll_loop_first_post [OF this]
  obtain evs where "events (snd (poll_loop (token_request dc cid aud) T (now w)
      (max 5 (if i = 0 then 5 else i)) (s # ss') (elapse lag w))) =
      evs @ Posted (token_request dc cid aud) (took s) # events (elapse lag w)"
    by blast
  then show ?thesis
    unfolding Cons poll_token_endpoint_def Let_def by (auto simp add: elapse_def)
qed

theorem first_poll_before_timeout_witness:
  "\<exists>evs d. events (snd (poll_token_endpoint (JStr ''d1'') ''oidc-agent'' None 5 0 0
      [error_answer 400 ''authorization_pending'' 0] quiet_world)) =
     evs @ Posted (token_request (JStr ''d1'') ''oidc-agent'' None) d # events quiet_world"
proof (rule first_poll_before_timeout)
  show "(0::rat) \<le> of_int 0" by simp
  show "fst (poll_token_endpoint (JStr ''d1'') ''oidc-agent'' None 5 0 0
      [error_answer 400 ''authorization_pending'' 0] quiet_world) = Some (Inl PollTimeout)"
    by (simp add: poll_token_endpoint_def error_answer_def quiet_world_def elapse_def
        dict_get_def requests_post_def time_sleep_def Let_def)
qed

text \<open>
  C10 as stated fails at timeout 0 as soon as the clock moves between the reading at loop
  entry and the first check, here by a millisecond: the timeout error is raised and
  nothing was posted.
\<close>

theorem timeout_before_first_poll:
  "fst (poll_token_endpoint (JStr ''d1'') ''oidc-agent'' None 5 0 (1 / 1000)
      [json_answer 200 sample_tokens] quiet_world) = Some (Inl PollTimeout)
   \<and> events (snd (poll_token_endpoint (JStr ''d1'') ''oidc-agent'' None 5 0 (1 / 1000)
      [json_answer 200 sample_tokens] quiet_world)) = []"
  by (simp add: poll_token_endpoint_def quiet_world_def elapse_def)

end
